theory Spec2Isabelle
  imports Main
begin

section \<open>Python strings\<close>

text \<open>
  A Python \<open>str\<close> is modelled as a \<open>string\<close>, one \<open>char\<close> per code point, for
  code points below 256. The functions below are the \<open>str\<close> methods that
  \<open>console_error_scraper.py\<close> calls.
\<close>

definition is_space :: "char \<Rightarrow> bool" where
  \<comment> \<open>\<open>str.isspace\<close> on one character, the set that \<open>str.strip()\<close> removes\<close>
  "is_space c = (c \<in> set [CHR 0x09, CHR 0x0A, CHR 0x0B, CHR 0x0C, CHR 0x0D,
     CHR 0x1C, CHR 0x1D, CHR 0x1E, CHR 0x1F, CHR 0x20, CHR 0x85, CHR 0xA0])"

definition strip :: "string \<Rightarrow> string" where
  \<comment> \<open>\<open>s.strip()\<close>\<close>
  "strip s = rev (dropWhile is_space (rev (dropWhile is_space s)))"

definition startswith :: "string \<Rightarrow> string \<Rightarrow> bool" where
  \<comment> \<open>\<open>s.startswith(p)\<close>, written \<open>startswith p s\<close>\<close>
  "startswith p s = (take (length p) s = p)"

definition split_once :: "char \<Rightarrow> string \<Rightarrow> string \<times> string" where
  \<comment> \<open>\<open>s.split(c, 1)\<close> on a string that contains \<open>c\<close>: the two parts around the first \<open>c\<close>\<close>
  "split_once c s = (takeWhile (\<lambda>x. x \<noteq> c) s, tl (dropWhile (\<lambda>x. x \<noteq> c) s))"

function replace_ne :: "string \<Rightarrow> string \<Rightarrow> string \<Rightarrow> string" where
  "replace_ne old new [] = []"
| "replace_ne old new (c # cs) =
     (if old \<noteq> [] \<and> take (length old) (c # cs) = old
      then new @ replace_ne old new (drop (length old) (c # cs))
      else c # replace_ne old new cs)"
  by pat_completeness auto
termination
  by (relation "measure (\<lambda>(old, new, s). length s)") auto

definition replace :: "string \<Rightarrow> string \<Rightarrow> string \<Rightarrow> string" where
  \<comment> \<open>\<open>s.replace(old, new)\<close>, written \<open>replace old new s\<close>: every occurrence, found left to
      right without overlap; an empty \<open>old\<close> matches before each character and at the end\<close>
  "replace old new s =
     (if old = [] then new @ concat (map (\<lambda>c. c # new) s) else replace_ne old new s)"

section \<open>The scraper object and its errors\<close>

datatype error =
    FileNotFoundError
  | ValueError
  | AttributeError
  | EngineError string

record location =
  loc_url :: string
  line_number :: nat
  column_number :: nat

text \<open>One entry of \<open>self.console_errors\<close>: the dict with the keys \<open>timestamp\<close>, \<open>type\<close>,
  \<open>text\<close>, \<open>location\<close> and \<open>url\<close>.\<close>

record event =
  ev_timestamp :: string
  ev_type :: string
  ev_text :: string
  ev_location :: "location option"
  ev_url :: "string option"

text \<open>The fields of \<open>ConsoleErrorScraper\<close>. A handle (\<open>playwright\<close>, \<open>browser\<close>, \<open>page\<close>) is
  \<open>True\<close> when the attribute holds an object and \<open>False\<close> when it is \<open>None\<close>.\<close>

record scraper =
  playwright :: bool
  browser :: bool
  page :: bool
  console_errors :: "event list"
  site_url :: "string option"
  gdpr_present :: bool

definition init :: scraper where
  \<comment> \<open>\<open>__init__\<close>\<close>
  "init = \<lparr>playwright = False, browser = False, page = False, console_errors = [],
     site_url = None, gdpr_present = False\<rparr>"

section \<open>Configuration loader\<close>

text \<open>The loop of \<open>load_env_file\<close> over the lines of the file. The second argument is the
  current value of \<open>self.site_url\<close>; the \<open>break\<close> is the equation that does not recurse.\<close>

fun scan_lines :: "string list \<Rightarrow> string option \<Rightarrow> string option" where
  "scan_lines [] su = su"
| "scan_lines (raw # rest) su =
     (let line = strip raw in
      if line \<noteq> [] \<and> \<not> startswith ''#'' line \<and> CHR ''='' \<in> set line
      then (case split_once CHR ''='' line of (key, val) \<Rightarrow>
              if strip key = ''SITE_URL'' then Some (strip val)
              else scan_lines rest su)
      else scan_lines rest su)"

definition add_protocol :: "string \<Rightarrow> string" where
  \<comment> \<open>lines 37 to 40\<close>
  "add_protocol u =
     (if \<not> (startswith ''http://'' u \<or> startswith ''https://'' u) then ''https://'' @ u else u)"

text \<open>\<open>load_env_file\<close>: the first argument is the content of the \<open>.env\<close> file as its list of
  lines, \<open>None\<close> when the file does not exist. The result is the exception raised, if any,
  and the object as the call leaves it.\<close>

definition load_env_file :: "string list option \<Rightarrow> scraper \<Rightarrow> error option \<times> scraper" where
  "load_env_file file s =
     (case file of
        None \<Rightarrow> (Some FileNotFoundError, s)
      | Some lines \<Rightarrow>
          (let s1 = s\<lparr>site_url := scan_lines lines (site_url s)\<rparr> in
           case site_url s1 of
             None \<Rightarrow> (Some ValueError, s1)
           | Some u \<Rightarrow>
               if u = [] then (Some ValueError, s1)
               else (None, s1\<lparr>site_url := Some (add_protocol u)\<rparr>)))"

section \<open>The world outside the script\<close>

text \<open>What a console message carries: \<open>msg.type\<close>, \<open>msg.text\<close> and \<open>msg.location\<close>.\<close>

record console_msg =
  msg_type :: string
  msg_text :: string
  msg_location :: location

datatype notification =
    Console console_msg
  | PageError string

text \<open>A notification as the automation engine hands it to the registered observer,
  together with what the observer reads from its surroundings while it runs: the clock
  (\<open>datetime.now().isoformat()\<close>) and \<open>self.page.url\<close>.\<close>

record delivery =
  now :: string
  page_url :: string
  what :: notification

text \<open>The document that \<open>save_errors_to_json\<close> serialises (\<open>output_data\<close>).\<close>

record output_data =
  out_site_url :: string
  domain :: string
  scraped_at :: string
  GDPR_PRESENT :: string
  total_errors :: nat
  errors :: "event list"

text \<open>The calls the script makes on the automation engine, the clock and the file system,
  in the order it makes them. \<open>CleanupComplete\<close> is the line that \<open>cleanup\<close> prints last; the
  other lines the script prints are not recorded.\<close>

datatype action =
    StartEngine
  | LaunchBrowser
  | NewContext
  | NewPage
  | OnConsole
  | OnPageError
  | Goto "string option"
  | Sleep nat
  | IsVisible string
  | Click string
  | WaitNetworkIdle
  | Evaluate string
  | Mkdir string
  | WriteFile string output_data
  | ClosePage
  | CloseBrowser
  | StopEngine
  | CleanupComplete

record world =
  engine_running :: bool
  browser_running :: bool
  context_open :: bool
  page_open :: bool
  trace :: "action list"

definition idle_world :: world where
  "idle_world = \<lparr>engine_running = False, browser_running = False, context_open = False,
     page_open = False, trace = []\<rparr>"

definition log :: "action \<Rightarrow> world \<Rightarrow> world" where
  "log a w = w\<lparr>trace := trace w @ [a]\<rparr>"

text \<open>How one candidate of the resolver turns out: the visibility check raises, it answers
  that the element is not visible (or absent), the element is visible and the click
  raises, or the element is visible and the click returns.\<close>

datatype probe_outcome =
    CheckRaises
  | NotVisible
  | ClickRaises
  | Activated

text \<open>Everything a run takes from outside. A call on the engine answers with \<open>None\<close> when
  it returns and with \<open>Some d\<close> when it raises an exception whose \<open>str\<close> is \<open>d\<close>; a
  blocking call on the page also brings the notifications that the engine delivers to
  the observers while the script waits in it. \<open>probe e i\<close> is the answer for the candidate
  at position \<open>i\<close> of the selector list. \<open>netloc_rejected\<close> says for which network
  locations the checks \<open>_check_bracketed_host\<close> and \<open>_checknetloc\<close> of \<open>urllib.parse\<close> raise.\<close>

record env =
  env_file :: "string list option"
  start_result :: "string option"
  launch_result :: "string option"
  new_context_result :: "string option"
  new_page_result :: "string option"
  goto_result :: "string option \<times> delivery list"
  probe :: "nat \<Rightarrow> probe_outcome \<times> delivery list"
  idle_result :: "string option \<times> delivery list"
  scroll_down_result :: "string option \<times> delivery list"
  scroll_up_result :: "string option \<times> delivery list"
  nav_error_now :: string
  scraped_at_now :: string
  netloc_rejected :: "string \<Rightarrow> bool"

section \<open>Observers\<close>

definition handle_console_message :: "string \<Rightarrow> string \<Rightarrow> console_msg \<Rightarrow> scraper \<Rightarrow> scraper" where
  "handle_console_message t purl msg s =
     (if msg_type msg \<in> set [''error'', ''warning'']
      then s\<lparr>console_errors := console_errors s @
             [\<lparr>ev_timestamp = t, ev_type = msg_type msg, ev_text = msg_text msg,
               ev_location = Some (msg_location msg),
               ev_url = (if page s then Some purl else None)\<rparr>]\<rparr>
      else s)"

definition handle_page_error :: "string \<Rightarrow> string \<Rightarrow> string \<Rightarrow> scraper \<Rightarrow> scraper" where
  "handle_page_error t purl err s =
     s\<lparr>console_errors := console_errors s @
        [\<lparr>ev_timestamp = t, ev_type = ''page_error'', ev_text = err,
          ev_location = None,
          ev_url = (if page s then Some purl else None)\<rparr>]\<rparr>"

definition dispatch :: "delivery \<Rightarrow> scraper \<Rightarrow> scraper" where
  \<comment> \<open>the two observers registered with \<open>page.on\<close>\<close>
  "dispatch d s =
     (case what d of
        Console msg \<Rightarrow> handle_console_message (now d) (page_url d) msg s
      | PageError err \<Rightarrow> handle_page_error (now d) (page_url d) err s)"

definition dispatch_all :: "delivery list \<Rightarrow> scraper \<Rightarrow> scraper" where
  "dispatch_all ds s = fold dispatch ds s"

definition page_call :: "action \<Rightarrow> string option \<times> delivery list \<Rightarrow> scraper \<Rightarrow> world \<Rightarrow>
    string option \<times> scraper \<times> world" where
  \<comment> \<open>a blocking call on the page: the observers run on what arrives during the call\<close>
  "page_call a r s w = (fst r, dispatch_all (snd r) s, log a w)"

section \<open>Consent-control resolver\<close>

definition accept_selectors :: "string list" where
  "accept_selectors =
    [''button:has-text('Accept All')'',
     ''button:has-text('Accept all')'',
     ''button:has-text('ACCEPT ALL')'',
     ''button:has-text('Accept All Cookies')'',
     ''button:has-text('Accept all cookies')'',
     ''#accept-all'',
     ''#acceptAll'',
     ''#accept_all'',
     ''.accept-all'',
     ''.acceptAll'',
     ''.accept_all'',
     ''button:has-text('I Accept')'',
     ''button:has-text('I Agree')'',
     ''button:has-text('OK')'',
     ''button:has-text('Got it')'',
     ''button:has-text('Agree')'',
     ''button:has-text('Continue')'',
     ''button[aria-label*='Accept']'',
     ''button[aria-label*='accept']'',
     ''button[data-testid*='accept']'',
     ''button[data-cy*='accept']'',
     ''[id*='CybotCookiebotDialogBodyLevelButtonLevelOptinAllowAll']'',
     ''.cc-allow-all'',
     ''.cookie-accept'',
     ''.gdpr-accept'',
     ''//*[contains(text(), 'Accept') and (self::button or self::a)]'',
     ''//*[contains(text(), 'I agree') and (self::button or self::a)]'',
     ''//*[contains(text(), 'Continue') and (self::button or self::a)]'']"

definition locator :: "string \<Rightarrow> string" where
  \<comment> \<open>lines 151 to 156: the argument of \<open>self.page.locator\<close>\<close>
  "locator selector = (if startswith ''//'' selector then ''xpath='' @ selector else selector)"

text \<open>The \<open>for\<close> loop of \<open>find_and_click_accept_button\<close> from the candidate at position \<open>i\<close>
  on. Without a page, \<open>self.page.locator\<close> raises inside the \<open>try\<close> for every candidate.\<close>

fun try_selectors :: "env \<Rightarrow> nat \<Rightarrow> string list \<Rightarrow> scraper \<Rightarrow> world \<Rightarrow> bool \<times> scraper \<times> world" where
  "try_selectors e i [] s w = (False, s, w)"
| "try_selectors e i (selector # rest) s w =
     (if \<not> page s then try_selectors e (Suc i) rest s w
      else
        (let s1 = dispatch_all (snd (probe e i)) s;
             w1 = log (IsVisible (locator selector)) w
         in case fst (probe e i) of
              CheckRaises \<Rightarrow> try_selectors e (Suc i) rest s1 w1
            | NotVisible \<Rightarrow> try_selectors e (Suc i) rest s1 w1
            | ClickRaises \<Rightarrow> try_selectors e (Suc i) rest s1 (log (Click (locator selector)) w1)
            | Activated \<Rightarrow>
                (True, s1\<lparr>gdpr_present := True\<rparr>,
                 log (Sleep 2) (log (Click (locator selector)) w1))))"

definition find_and_click_accept_button :: "env \<Rightarrow> scraper \<Rightarrow> world \<Rightarrow> bool \<times> scraper \<times> world" where
  "find_and_click_accept_button e s w = try_selectors e 0 accept_selectors s w"

section \<open>Navigation and capture driver\<close>

definition no_page_message :: string where
  \<comment> \<open>\<open>str\<close> of the \<open>AttributeError\<close> that \<open>self.page.goto\<close> raises when \<open>self.page\<close> is \<open>None\<close>\<close>
  "no_page_message =
     [CHR 0x27] @ ''NoneType'' @ [CHR 0x27] @ '' object has no attribute '' @
     [CHR 0x27] @ ''goto'' @ [CHR 0x27]"

text \<open>The \<open>try\<close> block of \<open>navigate_and_capture_errors\<close>. The first component of the result is
  \<open>Some d\<close> when a statement of the block raised an exception whose \<open>str\<close> is \<open>d\<close>.\<close>

definition navigate_steps :: "env \<Rightarrow> scraper \<Rightarrow> world \<Rightarrow> string option \<times> scraper \<times> world" where
  "navigate_steps e s w =
     (if \<not> page s then (Some no_page_message, s, w)
      else
        case page_call (Goto (site_url s)) (goto_result e) s w of
          (Some d, s1, w1) \<Rightarrow> (Some d, s1, w1)
        | (None, s1, w1) \<Rightarrow>
           (case find_and_click_accept_button e s1 (log (Sleep 3) w1) of
              (found, s2, w2) \<Rightarrow>
               (case page_call WaitNetworkIdle (idle_result e) s2 w2 of
                  (Some d, s3, w3) \<Rightarrow> (Some d, s3, w3)
                | (None, s3, w3) \<Rightarrow>
                   (case page_call (Evaluate ''window.scrollTo(0, document.body.scrollHeight)'')
                           (scroll_down_result e) s3 (log (Sleep 5) w3) of
                      (Some d, s4, w4) \<Rightarrow> (Some d, s4, w4)
                    | (None, s4, w4) \<Rightarrow>
                       (case page_call (Evaluate ''window.scrollTo(0, 0)'')
                               (scroll_up_result e) s4 (log (Sleep 3) w4) of
                          (Some d, s5, w5) \<Rightarrow> (Some d, s5, w5)
                        | (None, s5, w5) \<Rightarrow> (None, s5, log (Sleep 2) w5))))))"

definition navigation_error :: "env \<Rightarrow> scraper \<Rightarrow> string \<Rightarrow> event" where
  \<comment> \<open>\<open>error_data\<close> of the \<open>except\<close> branch, lines 205 to 211\<close>
  "navigation_error e s d =
     \<lparr>ev_timestamp = nav_error_now e, ev_type = ''navigation_error'',
      ev_text = ''Navigation error: '' @ d, ev_location = None, ev_url = site_url s\<rparr>"

definition navigate_and_capture_errors :: "env \<Rightarrow> scraper \<Rightarrow> world \<Rightarrow> scraper \<times> world" where
  "navigate_and_capture_errors e s w =
     (case navigate_steps e s w of
        (None, s1, w1) \<Rightarrow> (s1, w1)
      | (Some d, s1, w1) \<Rightarrow>
          (s1\<lparr>console_errors := console_errors s1 @ [navigation_error e s1 d]\<rparr>, w1))"

section \<open>Result persister\<close>

text \<open>The network location that \<open>urlparse(url).netloc\<close> computes, after \<open>urlsplit\<close> of
  \<open>urllib.parse\<close> (CPython 3.11): leading control characters and spaces are dropped, tab,
  carriage return and line feed are removed, a scheme and its colon are cut off, and
  what follows a leading \<open>//\<close> is taken up to the first of \<open>/\<close>, \<open>?\<close> and \<open>#\<close>.\<close>

definition c0_control_or_space :: "char \<Rightarrow> bool" where
  "c0_control_or_space c = ((of_char c :: nat) \<le> 32)"

definition ascii_alpha :: "char \<Rightarrow> bool" where
  "ascii_alpha c = (let n = (of_char c :: nat) in (65 \<le> n \<and> n \<le> 90) \<or> (97 \<le> n \<and> n \<le> 122))"

definition scheme_char :: "char \<Rightarrow> bool" where
  "scheme_char c =
     (ascii_alpha c \<or> (let n = (of_char c :: nat) in 48 \<le> n \<and> n \<le> 57) \<or> c \<in> set ''+-.'')"

definition cut_scheme :: "string \<Rightarrow> string" where
  "cut_scheme url =
     (let pre = takeWhile (\<lambda>c. c \<noteq> CHR '':'') url in
      if CHR '':'' \<in> set url \<and> pre \<noteq> [] \<and> ascii_alpha (hd url) \<and> list_all scheme_char pre
      then drop (Suc (length pre)) url
      else url)"

definition netloc_of :: "string \<Rightarrow> string" where
  "netloc_of url0 =
     (let url1 = dropWhile c0_control_or_space url0;
          url2 = filter (\<lambda>c. c \<notin> set [CHR 0x09, CHR 0x0D, CHR 0x0A]) url1;
          url3 = cut_scheme url2
      in if take 2 url3 = ''//''
         then takeWhile (\<lambda>c. c \<notin> set ''/?#'') (drop 2 url3)
         else [])"

definition urlparse_netloc :: "env \<Rightarrow> string \<Rightarrow> string option" where
  \<comment> \<open>\<open>None\<close> when \<open>urlparse\<close> raises \<open>ValueError\<close>\<close>
  "urlparse_netloc e url =
     (let netloc = netloc_of url in
      if (CHR ''['' \<in> set netloc) \<noteq> (CHR '']'' \<in> set netloc) \<or> netloc_rejected e netloc
      then None else Some netloc)"

definition fallback_domain :: "string \<Rightarrow> string" where
  \<comment> \<open>lines 226 and 229\<close>
  "fallback_domain u =
     replace '':'' ''_'' (replace ''/'' ''_'' (replace ''www.'' ''''
       (replace ''http://'' '''' (replace ''https://'' '''' u))))"

definition derive_domain :: "env \<Rightarrow> string \<Rightarrow> string" where
  \<comment> \<open>lines 222 to 229\<close>
  "derive_domain e u =
     (case urlparse_netloc e u of
        None \<Rightarrow> fallback_domain u
      | Some netloc \<Rightarrow>
          (let d = replace '':'' ''_'' (replace ''www.'' '''' netloc) in
           if d = [] then fallback_domain u else d))"

definition json_filepath :: "string \<Rightarrow> string" where
  \<comment> \<open>\<open>Path("console_error/site_url") / f"{domain}.json"\<close>, for a domain without \<open>/\<close>\<close>
  "json_filepath d = ''console_error/site_url'' @ ''/'' @ d @ ''.json''"

text \<open>\<open>save_errors_to_json\<close>. With events to save and \<open>self.site_url\<close> still \<open>None\<close>, the
  fallback of the \<open>except\<close> branch raises \<open>AttributeError\<close> before anything is created.\<close>

definition save_errors_to_json :: "env \<Rightarrow> scraper \<Rightarrow> world \<Rightarrow> error option \<times> scraper \<times> world" where
  "save_errors_to_json e s w =
     (if console_errors s = [] then (None, s, w)
      else
        case site_url s of
          None \<Rightarrow> (Some AttributeError, s, w)
        | Some u \<Rightarrow>
            (let d = derive_domain e u;
                 output = \<lparr>out_site_url = u, domain = d, scraped_at = scraped_at_now e,
                   GDPR_PRESENT = (if gdpr_present s then ''TRUE'' else ''FALSE''),
                   total_errors = length (console_errors s),
                   errors = console_errors s\<rparr>
             in (None, s,
                 log (WriteFile (json_filepath d) output) (log (Mkdir ''console_error/site_url'') w))))"

section \<open>Browser session and the run\<close>

text \<open>\<open>setup_browser\<close>. Each of the four calls on the engine may raise; the attribute that
  would hold its result is then left as it was. Closing a browser closes its contexts
  and pages.\<close>

definition setup_browser :: "env \<Rightarrow> scraper \<Rightarrow> world \<Rightarrow> error option \<times> scraper \<times> world" where
  "setup_browser e s w =
     (case (if playwright s then (None, s, w)
            else (case start_result e of
                    Some d \<Rightarrow> (Some (EngineError d), s, log StartEngine w)
                  | None \<Rightarrow> (None, s\<lparr>playwright := True\<rparr>,
                             (log StartEngine w)\<lparr>engine_running := True\<rparr>))) of
        (Some x, s1, w1) \<Rightarrow> (Some x, s1, w1)
      | (None, s1, w1) \<Rightarrow>
         (case launch_result e of
            Some d \<Rightarrow> (Some (EngineError d), s1, log LaunchBrowser w1)
          | None \<Rightarrow>
             (let s2 = s1\<lparr>browser := True\<rparr>;
                  w2 = (log LaunchBrowser w1)\<lparr>browser_running := True\<rparr>
              in case new_context_result e of
                   Some d \<Rightarrow> (Some (EngineError d), s2, log NewContext w2)
                 | None \<Rightarrow>
                    (let w3 = (log NewContext w2)\<lparr>context_open := True\<rparr>
                     in case new_page_result e of
                          Some d \<Rightarrow> (Some (EngineError d), s2, log NewPage w3)
                        | None \<Rightarrow>
                           (None, s2\<lparr>page := True\<rparr>,
                            log OnPageError (log OnConsole
                              ((log NewPage w3)\<lparr>page_open := True\<rparr>)))))))"

definition cleanup :: "scraper \<Rightarrow> world \<Rightarrow> world" where
  "cleanup s w =
     (let w1 = (if page s then (log ClosePage w)\<lparr>page_open := False\<rparr> else w);
          w2 = (if browser s
                then (log CloseBrowser w1)\<lparr>browser_running := False, context_open := False,
                       page_open := False\<rparr>
                else w1);
          w3 = (if playwright s then (log StopEngine w2)\<lparr>engine_running := False\<rparr> else w2)
      in log CleanupComplete w3)"

text \<open>The \<open>try\<close> block of \<open>run\<close>: the first component is the exception that ends it.\<close>

definition run_steps :: "env \<Rightarrow> scraper \<Rightarrow> world \<Rightarrow> error option \<times> scraper \<times> world" where
  "run_steps e s w =
     (case load_env_file (env_file e) s of
        (Some x, s1) \<Rightarrow> (Some x, s1, w)
      | (None, s1) \<Rightarrow>
         (case setup_browser e s1 w of
            (Some x, s2, w2) \<Rightarrow> (Some x, s2, w2)
          | (None, s2, w2) \<Rightarrow>
             (case navigate_and_capture_errors e s2 w2 of
                (s3, w3) \<Rightarrow> save_errors_to_json e s3 w3)))"

text \<open>\<open>run\<close> as \<open>main\<close> calls it, on a new object: the exception that the \<open>except\<close> branch
  caught, the object and the world after the \<open>finally\<close> branch.\<close>

definition run :: "env \<Rightarrow> error option \<times> scraper \<times> world" where
  "run e = (case run_steps e init idle_world of (r, s, w) \<Rightarrow> (r, s, cleanup s w))"

section \<open>Reading the trace\<close>

definition file_writes :: "action list \<Rightarrow> (string \<times> output_data) list" where
  "file_writes tr = concat (map (\<lambda>a. case a of WriteFile p d \<Rightarrow> [(p, d)] | _ \<Rightarrow> []) tr)"

definition probed :: "action list \<Rightarrow> string list" where
  "probed tr = concat (map (\<lambda>a. case a of IsVisible l \<Rightarrow> [l] | _ \<Rightarrow> []) tr)"

definition acquisitions :: "action list \<Rightarrow> action list" where
  "acquisitions tr = filter (\<lambda>a. a \<in> set [StartEngine, LaunchBrowser, NewContext, NewPage]) tr"

section \<open>The configuration file in the words of the specification\<close>

definition names_site_url :: "string \<Rightarrow> bool" where
  \<comment> \<open>the line has a key, the part before its first \<open>=\<close>, and the key strips to \<open>SITE_URL\<close>\<close>
  "names_site_url raw =
     (CHR ''='' \<in> set raw \<and> strip (fst (split_once CHR ''='' raw)) = ''SITE_URL'')"

definition site_value :: "string \<Rightarrow> string" where
  \<comment> \<open>the value of the line, stripped\<close>
  "site_value raw = strip (snd (split_once CHR ''='' raw))"

definition skipped :: "string \<Rightarrow> bool" where
  \<comment> \<open>a blank line, a line starting with \<open>#\<close>, a line without \<open>=\<close>\<close>
  "skipped raw = (strip raw = [] \<or> startswith ''#'' raw \<or> CHR ''='' \<notin> set raw)"

section \<open>The observers in the words of the specification\<close>

text \<open>What the two observers make of one notification: a console message of severity
  \<open>error\<close> or \<open>warning\<close> gives one event with the severity as its kind, the text of the
  message, its location and the URL of the page; a page error gives one event of kind
  \<open>page_error\<close> with the error as text, no location and the URL of the page; a console
  message of another severity gives nothing.\<close>

definition observed :: "bool \<Rightarrow> delivery \<Rightarrow> event list" where
  "observed has_page d =
     (case what d of
        Console msg \<Rightarrow>
          if msg_type msg = ''error'' \<or> msg_type msg = ''warning''
          then [\<lparr>ev_timestamp = now d, ev_type = msg_type msg, ev_text = msg_text msg,
                 ev_location = Some (msg_location msg),
                 ev_url = (if has_page then Some (page_url d) else None)\<rparr>]
          else []
      | PageError err \<Rightarrow>
          [\<lparr>ev_timestamp = now d, ev_type = ''page_error'', ev_text = err,
            ev_location = None,
            ev_url = (if has_page then Some (page_url d) else None)\<rparr>])"

abbreviation seen :: "string set" where
  "seen \<equiv> {''error'', ''warning'', ''page_error''}"

section \<open>Notions used in the proofs\<close>

definition rstrip :: "string \<Rightarrow> string" where
  "rstrip s = rev (dropWhile is_space (rev s))"

definition page_action :: "action \<Rightarrow> bool" where
  "page_action a = (case a of Goto _ \<Rightarrow> True | Sleep _ \<Rightarrow> True | IsVisible _ \<Rightarrow> True
     | Click _ \<Rightarrow> True | WaitNetworkIdle \<Rightarrow> True | Evaluate _ \<Rightarrow> True | _ \<Rightarrow> False)"

text \<open>\<open>extends K s w s' w'\<close>: from \<open>s\<close>, \<open>w\<close> to \<open>s'\<close>, \<open>w'\<close> the handles and the URL are kept,
  the flag is not reset, the events grow at the end by events with kinds in \<open>K\<close>, the
  resources are as they were and the trace grows by calls on the page.\<close>

definition extends :: "string set \<Rightarrow> scraper \<Rightarrow> world \<Rightarrow> scraper \<Rightarrow> world \<Rightarrow> bool" where
  "extends K s w s' w' =
     (page s' = page s \<and> browser s' = browser s \<and> playwright s' = playwright s \<and>
      site_url s' = site_url s \<and> (gdpr_present s \<longrightarrow> gdpr_present s') \<and>
      (\<exists>ys. console_errors s' = console_errors s @ ys \<and> (\<forall>ev\<in>set ys. ev_type ev \<in> K)) \<and>
      engine_running w' = engine_running w \<and> browser_running w' = browser_running w \<and>
      context_open w' = context_open w \<and> page_open w' = page_open w \<and>
      (\<exists>added. trace w' = trace w @ added \<and> list_all page_action added))"



definition closes :: "scraper \<Rightarrow> action list" where
  \<comment> \<open>what \<open>cleanup\<close> does for the handles of the object\<close>
  "closes s =
     (if page s then [ClosePage] else []) @ (if browser s then [CloseBrowser] else []) @
     (if playwright s then [StopEngine] else []) @ [CleanupComplete]"

definition setup_action :: "action \<Rightarrow> bool" where
  "setup_action a =
     (a \<in> set [StartEngine, LaunchBrowser, NewContext, NewPage, OnConsole, OnPageError])"

section \<open>The domain identifier in the words of the specification\<close>

text \<open>The network location of the URL with a leading \<open>www.\<close> taken off and every \<open>:\<close>
  replaced by \<open>_\<close>.\<close>

definition www_prefix_stripped :: "string \<Rightarrow> string" where
  "www_prefix_stripped n = (if startswith ''www.'' n then drop 4 n else n)"

definition claimed_domain :: "string \<Rightarrow> string" where
  "claimed_domain url = replace '':'' ''_'' (www_prefix_stripped (netloc_of url))"

section \<open>Example runs\<close>

definition example_message :: delivery where
  "example_message =
     \<lparr>now = ''2024-01-01T00:00:01'', page_url = ''https://www.Example.com:8080/path'',
      what = Console \<lparr>msg_type = ''error'', msg_text = ''Uncaught TypeError'',
        msg_location = \<lparr>loc_url = ''https://www.Example.com:8080/app.js'',
          line_number = 10, column_number = 4\<rparr>\<rparr>\<rparr>"

text \<open>A site with one console error during navigation, whose third candidate is a
  visible consent control that accepts the click.\<close>

definition example_env :: env where
  "example_env =
     \<lparr>env_file = Some [''# target'', ''SITE_URL = www.Example.com:8080/path''],
      start_result = None, launch_result = None, new_context_result = None,
      new_page_result = None,
      goto_result = (None, [example_message]),
      probe = (\<lambda>i. (if i = 2 then Activated else NotVisible, [])),
      idle_result = (None, []), scroll_down_result = (None, []),
      scroll_up_result = (None, []),
      nav_error_now = ''2024-01-01T00:00:30'', scraped_at_now = ''2024-01-01T00:00:40'',
      netloc_rejected = (\<lambda>_. False)\<rparr>"



text \<open>A console message of severity \<open>info\<close>.\<close>

definition example_info :: delivery where
  "example_info =
     \<lparr>now = ''2024-01-01T00:00:02'', page_url = ''https://www.Example.com:8080/path'',
      what = Console \<lparr>msg_type = ''info'', msg_text = ''ready'',
        msg_location = \<lparr>loc_url = ''https://www.Example.com:8080/app.js'',
          line_number = 1, column_number = 1\<rparr>\<rparr>\<rparr>"

section \<open>Stripping and splitting\<close>

lemma mem_dropWhile: "x \<in> set xs \<Longrightarrow> \<not> P x \<Longrightarrow> x \<in> set (dropWhile P xs)"
  by (induction xs) auto


lemma rstrip_all: "\<forall>x\<in>set cs. is_space x \<Longrightarrow> rstrip cs = []"
  by (simp add: rstrip_def)

lemma rstrip_Cons: "rstrip (c # cs) = (if \<forall>x\<in>set cs. is_space x then (if is_space c then [] else [c]) else c # rstrip cs)"
  by (auto simp: rstrip_def dropWhile_append)

lemma rstrip_lstrip: "rstrip (dropWhile is_space s) = dropWhile is_space (rstrip s)"
proof (induction s)
  case Nil then show ?case by (simp add: rstrip_def)
next
  case (Cons c cs)
  show ?case
  proof (cases "is_space c")
    case True
    then show ?thesis using Cons by (simp add: rstrip_Cons rstrip_all)
  next
    case False
    then show ?thesis by (simp add: rstrip_Cons)
  qed
qed

lemma strip_alt: "strip s = dropWhile is_space (rstrip s)"
  using rstrip_lstrip by (simp add: strip_def rstrip_def)

lemma rstrip_append_spaces: "\<forall>x\<in>set ws. is_space x \<Longrightarrow> rstrip (v @ ws) = rstrip v"
  by (simp add: rstrip_def dropWhile_append)

lemma strip_append_spaces: "\<forall>x\<in>set ws. is_space x \<Longrightarrow> strip (v @ ws) = strip v"
  by (simp add: strip_alt rstrip_append_spaces)

lemma strip_lstrip: "strip (dropWhile is_space s) = strip s"
  by (simp add: strip_def)

lemma strip_decomp: "\<exists>ws. dropWhile is_space s = strip s @ ws \<and> (\<forall>x\<in>set ws. is_space x)"
proof -
  let ?y = "dropWhile is_space s"
  have "rev ?y = takeWhile is_space (rev ?y) @ dropWhile is_space (rev ?y)" by simp
  then have "?y = rev (dropWhile is_space (rev ?y)) @ rev (takeWhile is_space (rev ?y))"
    by (metis rev_append rev_rev_ident)
  moreover have "\<forall>x\<in>set (rev (takeWhile is_space (rev ?y))). is_space x"
    by (auto dest: set_takeWhileD)
  ultimately show ?thesis unfolding strip_def by blast
qed

lemma takeWhile_lstrip:
  "(\<And>x. is_space x \<Longrightarrow> P x) \<Longrightarrow> takeWhile P (dropWhile is_space s) = dropWhile is_space (takeWhile P s)"
  by (induction s) auto

lemma dropWhile_lstrip:
  "(\<And>x. is_space x \<Longrightarrow> P x) \<Longrightarrow> dropWhile P (dropWhile is_space s) = dropWhile P s"
  by (induction s) auto

lemma eq_in_strip: "\<not> is_space c \<Longrightarrow> c \<in> set (strip s) \<longleftrightarrow> c \<in> set s"
proof -
  assume ns: "\<not> is_space c"
  obtain ws where d: "dropWhile is_space s = strip s @ ws" and w: "\<forall>x\<in>set ws. is_space x"
    using strip_decomp by blast
  have "c \<in> set s \<longleftrightarrow> c \<in> set (dropWhile is_space s)"
    using ns by (auto dest: set_dropWhileD intro: mem_dropWhile)
  also have "\<dots> \<longleftrightarrow> c \<in> set (strip s)" using d w ns by auto
  finally show ?thesis by simp
qed

lemma split_strip:
  assumes ns: "\<And>x. is_space x \<Longrightarrow> x \<noteq> c" and mem: "c \<in> set s"
  shows "strip (fst (split_once c (strip s))) = strip (fst (split_once c s))"
    and "strip (snd (split_once c (strip s))) = strip (snd (split_once c s))"
proof -
  let ?P = "\<lambda>x. x \<noteq> c"
  obtain ws where d: "dropWhile is_space s = strip s @ ws" and w: "\<forall>x\<in>set ws. is_space x"
    using strip_decomp by blast
  have nsc: "\<not> is_space c" using ns by blast
  have memc: "c \<in> set (strip s)" using eq_in_strip [OF nsc] mem by simp
  have "takeWhile ?P (strip s) = takeWhile ?P (strip s @ ws)"
    using memc by (simp add: takeWhile_append1)
  also have "\<dots> = dropWhile is_space (takeWhile ?P s)"
    using takeWhile_lstrip [of ?P s] ns d by simp
  finally show "strip (fst (split_once c (strip s))) = strip (fst (split_once c s))"
    by (simp add: split_once_def strip_lstrip)
  have ne: "dropWhile ?P (strip s) \<noteq> []" using memc by (simp add: dropWhile_eq_Nil_conv)
  have "dropWhile ?P s = dropWhile ?P (strip s @ ws)"
    using dropWhile_lstrip [of ?P s] ns d by simp
  also have "\<dots> = dropWhile ?P (strip s) @ ws"
    using memc by (simp add: dropWhile_append1)
  finally have "tl (dropWhile ?P s) = tl (dropWhile ?P (strip s)) @ ws"
    using ne by simp
  then show "strip (snd (split_once c (strip s))) = strip (snd (split_once c s))"
    using w by (simp add: split_once_def strip_append_spaces)
qed


lemma space_not_eq: "is_space x \<Longrightarrow> x \<noteq> CHR ''=''"
  by (auto simp: is_space_def)

lemma strip_hash: "strip (CHR ''#'' # xs) = CHR ''#'' # rstrip xs"
  by (simp add: strip_alt rstrip_Cons rstrip_all is_space_def)

lemma hash_key: "startswith ''#'' line \<Longrightarrow> strip (fst (split_once CHR ''='' line)) \<noteq> ''SITE_URL''"
  by (cases line) (auto simp: startswith_def split_once_def strip_hash)

lemma startswith_strip: "startswith ''#'' raw \<Longrightarrow> startswith ''#'' (strip raw)"
  by (cases raw) (auto simp: startswith_def strip_hash)

lemma scan_lines_step:
  "scan_lines (raw # rest) su =
     (if names_site_url raw then Some (site_value raw) else scan_lines rest su)"
proof (cases "CHR ''='' \<in> set raw")
  case False
  then have "CHR ''='' \<notin> set (strip raw)"
    using eq_in_strip [of "CHR ''=''" raw] by (simp add: is_space_def)
  with False show ?thesis by (simp add: names_site_url_def)
next
  case True
  have m: "CHR ''='' \<in> set (strip raw)"
    using True eq_in_strip [of "CHR ''=''" raw] by (simp add: is_space_def)
  then have ne: "strip raw \<noteq> []" by auto
  note k = split_strip(1) [OF space_not_eq True] and v = split_strip(2) [OF space_not_eq True]
  show ?thesis
  proof (cases "strip (fst (split_once CHR ''='' raw)) = ''SITE_URL''")
    case key: True
    then have "\<not> startswith ''#'' (strip raw)" using hash_key [of "strip raw"] k by auto
    with key m ne True k v show ?thesis
      by (simp add: names_site_url_def site_value_def case_prod_beta Let_def)
  next
    case False
    with k show ?thesis by (simp add: names_site_url_def case_prod_beta Let_def)
  qed
qed

lemma scan_lines_find:
  "scan_lines lines su =
     (case find names_site_url lines of None \<Rightarrow> su | Some raw \<Rightarrow> Some (site_value raw))"
proof (induction lines)
  case Nil show ?case by simp
next
  case (Cons raw rest)
  show ?case unfolding scan_lines_step using Cons by simp
qed

lemma skipped_not_named: "skipped raw \<Longrightarrow> \<not> names_site_url raw"
  unfolding skipped_def names_site_url_def
  using hash_key [of raw] eq_in_strip [of "CHR ''=''" raw] by (auto simp: is_space_def)

section \<open>What the observers, the resolver and the driver leave unchanged\<close>

lemma extends_refl: "extends K s w s w"
  by (simp add: extends_def)

lemma extends_trans:
  assumes "extends K s w s1 w1" and "extends K s1 w1 s2 w2"
  shows "extends K s w s2 w2"
proof -
  from assms obtain ys zs a b where
    e: "console_errors s1 = console_errors s @ ys" "\<forall>ev\<in>set ys. ev_type ev \<in> K"
       "console_errors s2 = console_errors s1 @ zs" "\<forall>ev\<in>set zs. ev_type ev \<in> K"
    and t: "trace w1 = trace w @ a" "list_all page_action a"
       "trace w2 = trace w1 @ b" "list_all page_action b"
    unfolding extends_def by blast
  have c: "\<exists>ys. console_errors s2 = console_errors s @ ys \<and> (\<forall>ev\<in>set ys. ev_type ev \<in> K)"
    by (rule exI [of _ "ys @ zs"]) (use e in auto)
  have d: "\<exists>added. trace w2 = trace w @ added \<and> list_all page_action added"
    by (rule exI [of _ "a @ b"]) (use t in auto)
  show ?thesis using assms c d unfolding extends_def by simp
qed

lemma extends_mono: "K \<subseteq> K' \<Longrightarrow> extends K s w s' w' \<Longrightarrow> extends K' s w s' w'"
  unfolding extends_def by blast

lemma extends_log: "page_action a \<Longrightarrow> extends K s w s (log a w)"
  by (simp add: extends_def log_def)

lemma dispatch_events: "console_errors (dispatch d s) = console_errors s @ observed (page s) d"
  by (simp add: dispatch_def observed_def handle_console_message_def handle_page_error_def
      split: notification.splits)

lemma dispatch_fields:
  "page (dispatch d s) = page s" "browser (dispatch d s) = browser s"
  "playwright (dispatch d s) = playwright s" "site_url (dispatch d s) = site_url s"
  "gdpr_present (dispatch d s) = gdpr_present s"
  by (simp_all add: dispatch_def handle_console_message_def handle_page_error_def
      split: notification.splits)

lemma dispatch_all_fields:
  "page (dispatch_all ds s) = page s" "browser (dispatch_all ds s) = browser s"
  "playwright (dispatch_all ds s) = playwright s" "site_url (dispatch_all ds s) = site_url s"
  "gdpr_present (dispatch_all ds s) = gdpr_present s"
  unfolding dispatch_all_def by (induction ds arbitrary: s; simp add: dispatch_fields)+

lemma dispatch_all_events:
  "console_errors (dispatch_all ds s) = console_errors s @ concat (map (observed (page s)) ds)"
  unfolding dispatch_all_def
  by (induction ds arbitrary: s) (simp_all add: dispatch_events dispatch_fields)

lemma observed_kind: "ev \<in> set (observed b d) \<Longrightarrow> ev_type ev \<in> seen"
  by (auto simp: observed_def split: notification.splits if_splits)

lemma observed_all_kind: "ev \<in> set (concat (map (observed b) ds)) \<Longrightarrow> ev_type ev \<in> seen"
  by (auto dest: observed_kind)

lemma extends_dispatch_all: "extends seen s w (dispatch_all ds s) w"
  unfolding extends_def
  by (simp add: dispatch_all_fields dispatch_all_events) (use observed_kind in auto)

lemma extends_page_call:
  "page_action a \<Longrightarrow> page_call a r s w = (x, s', w') \<Longrightarrow> extends seen s w s' w'"
  unfolding page_call_def
  using extends_trans [OF extends_dispatch_all extends_log] by auto

lemma extends_gdpr: "extends K s w (s\<lparr>gdpr_present := True\<rparr>) w"
  by (simp add: extends_def)

lemma extends_try_selectors:
  "try_selectors e i sels s w = (b, s', w') \<Longrightarrow> extends seen s w s' w'"
proof (induction sels arbitrary: i s w)
  case Nil
  then show ?case by (simp add: extends_refl)
next
  case (Cons selector rest)
  show ?case
  proof (cases "page s")
    case False
    with Cons show ?thesis by simp
  next
    case True
    let ?s1 = "dispatch_all (snd (probe e i)) s"
    let ?w1 = "log (IsVisible (locator selector)) w"
    let ?w2 = "log (Click (locator selector)) ?w1"
    have a: "extends seen s w ?s1 ?w1"
      by (rule extends_trans [OF extends_dispatch_all extends_log]) (simp add: page_action_def)
    have b: "extends seen s w ?s1 ?w2"
      by (rule extends_trans [OF a extends_log]) (simp add: page_action_def)
    show ?thesis
    proof (cases "fst (probe e i)")
      case CheckRaises
      with Cons.prems True have "try_selectors e (Suc i) rest ?s1 ?w1 = (b, s', w')" by simp
      from extends_trans [OF a Cons.IH [OF this]] show ?thesis .
    next
      case NotVisible
      with Cons.prems True have "try_selectors e (Suc i) rest ?s1 ?w1 = (b, s', w')" by simp
      from extends_trans [OF a Cons.IH [OF this]] show ?thesis .
    next
      case ClickRaises
      with Cons.prems True have "try_selectors e (Suc i) rest ?s1 ?w2 = (b, s', w')" by simp
      from extends_trans [OF b Cons.IH [OF this]] show ?thesis .
    next
      case Activated
      with Cons.prems True have s': "s' = ?s1\<lparr>gdpr_present := True\<rparr>" and w': "w' = log (Sleep 2) ?w2"
        by simp_all
      have "extends seen ?s1 ?w2 s' w'"
        unfolding s' w'
        by (rule extends_trans [OF extends_gdpr extends_log]) (simp add: page_action_def)
      from extends_trans [OF b this] show ?thesis .
    qed
  qed
qed

lemma extends_navigate_steps:
  "navigate_steps e s w = (x, s', w') \<Longrightarrow> extends seen s w s' w'"
proof (cases "page s")
  case False
  assume "navigate_steps e s w = (x, s', w')"
  with False show ?thesis by (simp add: navigate_steps_def extends_refl)
next
  case True
  assume n: "navigate_steps e s w = (x, s', w')"
  obtain x1 s1 w1 where c1: "page_call (Goto (site_url s)) (goto_result e) s w = (x1, s1, w1)"
    by (metis prod_cases3)
  have e1: "extends seen s w s1 w1" by (rule extends_page_call [OF _ c1]) (simp add: page_action_def)
  show ?thesis
  proof (cases x1)
    case (Some d)
    with n True c1 have "s' = s1" "w' = w1" by (simp_all add: navigate_steps_def)
    with e1 show ?thesis by simp
  next
    case None
    obtain f s2 w2 where c2: "find_and_click_accept_button e s1 (log (Sleep 3) w1) = (f, s2, w2)"
      by (metis prod_cases3)
    have e2: "extends seen s w s2 w2"
      using extends_trans [OF e1 extends_trans [OF extends_log [of "Sleep 3"] extends_try_selectors]] c2
      unfolding find_and_click_accept_button_def by (simp add: page_action_def)
    obtain x3 s3 w3 where c3: "page_call WaitNetworkIdle (idle_result e) s2 w2 = (x3, s3, w3)"
      by (metis prod_cases3)
    have e3: "extends seen s w s3 w3"
      by (rule extends_trans [OF e2 extends_page_call [OF _ c3]]) (simp add: page_action_def)
    show ?thesis
    proof (cases x3)
      case (Some d)
      with n True c1 None c2 c3 have "s' = s3" "w' = w3" by (simp_all add: navigate_steps_def)
      with e3 show ?thesis by simp
    next
      case n3: None
      obtain x4 s4 w4 where c4: "page_call (Evaluate ''window.scrollTo(0, document.body.scrollHeight)'')
          (scroll_down_result e) s3 (log (Sleep 5) w3) = (x4, s4, w4)"
        by (metis prod_cases3)
      have e4: "extends seen s w s4 w4"
        by (rule extends_trans [OF e3 extends_trans [OF extends_log [of "Sleep 5"] extends_page_call [OF _ c4]]])
           (simp_all add: page_action_def)
      show ?thesis
      proof (cases x4)
        case (Some d)
        with n True c1 None c2 c3 n3 c4 have "s' = s4" "w' = w4" by (simp_all add: navigate_steps_def)
        with e4 show ?thesis by simp
      next
        case n4: None
        obtain x5 s5 w5 where c5: "page_call (Evaluate ''window.scrollTo(0, 0)'')
            (scroll_up_result e) s4 (log (Sleep 3) w4) = (x5, s5, w5)"
          by (metis prod_cases3)
        have e5: "extends seen s w s5 w5"
          by (rule extends_trans [OF e4 extends_trans [OF extends_log [of "Sleep 3"] extends_page_call [OF _ c5]]])
             (simp_all add: page_action_def)
        show ?thesis
        proof (cases x5)
          case (Some d)
          with n True c1 None c2 c3 n3 c4 n4 c5 have "s' = s5" "w' = w5"
            by (simp_all add: navigate_steps_def)
          with e5 show ?thesis by simp
        next
          case n5: None
          with n True c1 None c2 c3 n3 c4 n4 c5 have "s' = s5" "w' = log (Sleep 2) w5"
            by (simp_all add: navigate_steps_def)
          with extends_trans [OF e5 extends_log [of "Sleep 2"]] show ?thesis
            by (simp add: page_action_def)
        qed
      qed
    qed
  qed
qed

section \<open>The loader\<close>

lemma load_ok:
  "scan_lines lines (site_url s) = Some u \<Longrightarrow> u \<noteq> [] \<Longrightarrow>
   load_env_file (Some lines) s = (None, s\<lparr>site_url := Some (add_protocol u)\<rparr>)"
  by (simp add: load_env_file_def)

lemma find_first:
  "P x \<Longrightarrow> \<forall>l\<in>set pre. \<not> P l \<Longrightarrow> find P (pre @ x # post) = Some x"
  by (induction pre) auto

lemma scan_lines_skip:
  "skipped raw \<Longrightarrow> scan_lines (pre @ raw # post) su = scan_lines (pre @ post) su"
  using skipped_not_named [of raw]
  by (induction pre) (simp_all add: scan_lines_step del: scan_lines.simps(2))

lemma load_empty_value:
  "scan_lines lines (site_url s) = Some [] \<Longrightarrow>
   load_env_file (Some lines) s = (Some ValueError, s\<lparr>site_url := Some []\<rparr>)"
  by (simp add: load_env_file_def)

lemma load_missing:
  "scan_lines lines (site_url s) = None \<Longrightarrow>
   load_env_file (Some lines) s = (Some ValueError, s\<lparr>site_url := None\<rparr>)"
  by (simp add: load_env_file_def)

lemma cleanup_init:
  "\<not> page s \<Longrightarrow> \<not> browser s \<Longrightarrow> \<not> playwright s \<Longrightarrow> cleanup s w = log CleanupComplete w"
  by (simp add: cleanup_def)

section \<open>The resolver\<close>

lemma ex_less_Suc_shift:
  "(\<exists>j<Suc n. P (i + j)) = (P i \<or> (\<exists>j<n. P (Suc i + j)))"
proof
  assume "\<exists>j<Suc n. P (i + j)"
  then obtain j where j: "j < Suc n" "P (i + j)" by blast
  show "P i \<or> (\<exists>j<n. P (Suc i + j))"
  proof (cases j)
    case 0 with j show ?thesis by simp
  next
    case (Suc m) with j show ?thesis by auto
  qed
next
  assume "P i \<or> (\<exists>j<n. P (Suc i + j))"
  then show "\<exists>j<Suc n. P (i + j)"
  proof
    assume "P i" then have "P (i + 0)" by simp
    then show ?thesis by blast
  next
    assume "\<exists>j<n. P (Suc i + j)"
    then obtain j where "j < n" "P (i + Suc j)" by auto
    then show ?thesis by (metis Suc_less_eq)
  qed
qed

lemma probed_log:
  "probed (trace (log a w)) = probed (trace w) @ (case a of IsVisible l \<Rightarrow> [l] | _ \<Rightarrow> [])"
  by (simp add: probed_def log_def)

lemma try_selectors_returns:
  "page s \<Longrightarrow>
   fst (try_selectors e i sels s w) = (\<exists>j<length sels. fst (probe e (i + j)) = Activated)"
proof (induction sels arbitrary: i s w)
  case Nil
  then show ?case by simp
next
  case (Cons selector rest)
  have p: "page (dispatch_all (snd (probe e i)) s)"
    using Cons.prems by (simp add: dispatch_all_fields)
  show ?case
    using Cons.prems Cons.IH [OF p, of "Suc i"]
    by (cases "fst (probe e i)")
       (simp_all add: ex_less_Suc_shift [of "length rest" "\<lambda>k. fst (probe e k) = Activated" i]
          del: add_Suc)
qed

lemma try_selectors_none:
  "page s \<Longrightarrow> \<forall>j<length sels. fst (probe e (i + j)) \<noteq> Activated \<Longrightarrow>
   try_selectors e i sels s w = (b, s', w') \<Longrightarrow>
   \<not> b \<and> gdpr_present s' = gdpr_present s \<and>
   probed (trace w') = probed (trace w) @ map locator sels"
proof (induction sels arbitrary: i s w)
  case Nil
  then show ?case by auto
next
  case (Cons selector rest)
  let ?s1 = "dispatch_all (snd (probe e i)) s"
  let ?w1 = "log (IsVisible (locator selector)) w"
  have p: "page ?s1" using Cons.prems(1) by (simp add: dispatch_all_fields)
  have g: "gdpr_present ?s1 = gdpr_present s" by (simp add: dispatch_all_fields)
  have r: "\<forall>j<length rest. fst (probe e (Suc i + j)) \<noteq> Activated"
    using Cons.prems(2) by (metis add_Suc_shift length_Cons Suc_less_eq)
  have h: "fst (probe e i) \<noteq> Activated" using Cons.prems(2) [rule_format, of 0] by simp
  show ?case
  proof (cases "fst (probe e i) = ClickRaises")
    case True
    with Cons.prems have "try_selectors e (Suc i) rest ?s1 (log (Click (locator selector)) ?w1) = (b, s', w')"
      by simp
    from Cons.IH [OF p r this] g show ?thesis by (simp add: probed_log)
  next
    case False
    with h Cons.prems have "try_selectors e (Suc i) rest ?s1 ?w1 = (b, s', w')"
      by (cases "fst (probe e i)") simp_all
    from Cons.IH [OF p r this] g show ?thesis by (simp add: probed_log)
  qed
qed

lemma try_selectors_first:
  "page s \<Longrightarrow> k < length sels \<Longrightarrow> fst (probe e (i + k)) = Activated \<Longrightarrow>
   \<forall>j<k. fst (probe e (i + j)) \<noteq> Activated \<Longrightarrow>
   try_selectors e i sels s w = (b, s', w') \<Longrightarrow>
   b \<and> gdpr_present s' \<and>
   probed (trace w') = probed (trace w) @ map locator (take (Suc k) sels) \<and>
   (\<exists>tr. trace w' = tr @ [IsVisible (locator (sels ! k)), Click (locator (sels ! k)), Sleep 2])"
proof (induction sels arbitrary: i k s w)
  case Nil
  then show ?case by simp
next
  case (Cons selector rest)
  let ?s1 = "dispatch_all (snd (probe e i)) s"
  let ?w1 = "log (IsVisible (locator selector)) w"
  have p: "page ?s1" using Cons.prems(1) by (simp add: dispatch_all_fields)
  show ?case
  proof (cases k)
    case 0
    with Cons.prems show ?thesis
      by (auto simp: probed_def log_def)
  next
    case (Suc m)
    have m: "m < length rest" using Suc Cons.prems(2) by simp
    have a: "fst (probe e (Suc i + m)) = Activated" using Suc Cons.prems(3) by simp
    have r: "\<forall>j<m. fst (probe e (Suc i + j)) \<noteq> Activated"
      using Cons.prems(4) Suc by (metis add_Suc_shift Suc_less_eq)
    have h: "fst (probe e i) \<noteq> Activated" using Cons.prems(4) [rule_format, of 0] Suc by simp
    show ?thesis
    proof (cases "fst (probe e i) = ClickRaises")
      case True
      with Cons.prems have "try_selectors e (Suc i) rest ?s1 (log (Click (locator selector)) ?w1) = (b, s', w')"
        by simp
      from Cons.IH [OF p m a r this] Suc show ?thesis by (simp add: probed_log)
    next
      case False
      with h Cons.prems have "try_selectors e (Suc i) rest ?s1 ?w1 = (b, s', w')"
        by (cases "fst (probe e i)") simp_all
      from Cons.IH [OF p m a r this] Suc show ?thesis by (simp add: probed_log)
    qed
  qed
qed

lemma try_selectors_flag:
  "page s \<Longrightarrow> try_selectors e i sels s w = (b, s', w') \<Longrightarrow>
   gdpr_present s' = (gdpr_present s \<or> b)"
proof (induction sels arbitrary: i s w)
  case Nil
  then show ?case by auto
next
  case (Cons selector rest)
  let ?s1 = "dispatch_all (snd (probe e i)) s"
  have p: "page ?s1" using Cons.prems(1) by (simp add: dispatch_all_fields)
  have g: "gdpr_present ?s1 = gdpr_present s" by (simp add: dispatch_all_fields)
  show ?case
    using Cons.prems Cons.IH [OF p] g
    by (cases "fst (probe e i)") auto
qed

section \<open>The steps of a run\<close>

lemma load_env_file_keeps:
  "load_env_file f s = (r, s') \<Longrightarrow>
   page s' = page s \<and> browser s' = browser s \<and> playwright s' = playwright s \<and>
   console_errors s' = console_errors s \<and> gdpr_present s' = gdpr_present s"
  by (auto simp: load_env_file_def Let_def split: option.splits if_splits)

lemma load_env_file_url:
  "load_env_file f s = (None, s') \<Longrightarrow> \<exists>u. site_url s' = Some u"
  by (auto simp: load_env_file_def Let_def split: option.splits if_splits)

lemma setup_browser_ok:
  "\<not> playwright s \<Longrightarrow> setup_browser e s w = (None, s', w') \<Longrightarrow>
   s' = s\<lparr>playwright := True, browser := True, page := True\<rparr> \<and>
   engine_running w' \<and> browser_running w' \<and> context_open w' \<and> page_open w' \<and>
   trace w' = trace w @ [StartEngine, LaunchBrowser, NewContext, NewPage, OnConsole, OnPageError]"
  by (auto simp: setup_browser_def Let_def log_def split: option.splits)

lemma setup_browser_keeps:
  "setup_browser e s w = (r, s', w') \<Longrightarrow>
   console_errors s' = console_errors s \<and> site_url s' = site_url s \<and>
   gdpr_present s' = gdpr_present s \<and>
   (\<exists>added. trace w' = trace w @ added \<and> list_all setup_action added)"
  by (auto simp: setup_browser_def Let_def log_def setup_action_def split: option.splits if_splits)



lemma cleanup_trace: "trace (cleanup s w) = trace w @ closes s"
  by (simp add: cleanup_def closes_def log_def Let_def)


lemma save_errors_to_json_keeps:
  "save_errors_to_json e s w = (r, s', w') \<Longrightarrow>
   s' = s \<and> engine_running w' = engine_running w \<and> browser_running w' = browser_running w \<and>
   context_open w' = context_open w \<and> page_open w' = page_open w"
  by (auto simp: save_errors_to_json_def Let_def log_def split: option.splits if_splits)

lemma save_errors_to_json_empty:
  "console_errors s = [] \<Longrightarrow> save_errors_to_json e s w = (None, s, w)"
  by (simp add: save_errors_to_json_def)

lemma save_errors_to_json_writes:
  "console_errors s \<noteq> [] \<Longrightarrow> site_url s = Some u \<Longrightarrow>
   save_errors_to_json e s w =
     (None, s,
      w\<lparr>trace := trace w @
        [Mkdir ''console_error/site_url'',
         WriteFile (json_filepath (derive_domain e u))
           \<lparr>out_site_url = u, domain = derive_domain e u, scraped_at = scraped_at_now e,
            GDPR_PRESENT = (if gdpr_present s then ''TRUE'' else ''FALSE''),
            total_errors = length (console_errors s), errors = console_errors s\<rparr>]\<rparr>)"
  by (simp add: save_errors_to_json_def Let_def log_def)

lemma extends_navigate:
  "navigate_and_capture_errors e s w = (s', w') \<Longrightarrow>
   extends (insert ''navigation_error'' seen) s w s' w'"
proof -
  assume n: "navigate_and_capture_errors e s w = (s', w')"
  obtain x s1 w1 where st: "navigate_steps e s w = (x, s1, w1)" by (metis prod_cases3)
  have e1: "extends (insert ''navigation_error'' seen) s w s1 w1"
    by (rule extends_mono [OF _ extends_navigate_steps [OF st]]) auto
  show ?thesis
  proof (cases x)
    case None
    with n st e1 show ?thesis by (simp add: navigate_and_capture_errors_def)
  next
    case (Some d)
    with n st have s': "s' = s1\<lparr>console_errors := console_errors s1 @ [navigation_error e s1 d]\<rparr>"
      and w': "w' = w1" by (simp_all add: navigate_and_capture_errors_def)
    have "extends (insert ''navigation_error'' seen) s1 w1 s' w'"
      unfolding s' w' by (simp add: extends_def navigation_error_def)
    from extends_trans [OF e1 this] show ?thesis .
  qed
qed

lemma run_steps_cases [case_names config session navigated]:
  obtains
    (config) x s1 where "load_env_file (env_file e) init = (Some x, s1)"
      and "run_steps e init idle_world = (Some x, s1, idle_world)"
  | (session) s1 x s2 w2 where "load_env_file (env_file e) init = (None, s1)"
      and "setup_browser e s1 idle_world = (Some x, s2, w2)"
      and "run_steps e init idle_world = (Some x, s2, w2)"
  | (navigated) s1 s2 w2 s3 w3 where "load_env_file (env_file e) init = (None, s1)"
      and "setup_browser e s1 idle_world = (None, s2, w2)"
      and "navigate_and_capture_errors e s2 w2 = (s3, w3)"
      and "run_steps e init idle_world = save_errors_to_json e s3 w3"
proof -
  obtain r1 s1 where l: "load_env_file (env_file e) init = (r1, s1)" by (metis prod.exhaust)
  show ?thesis
  proof (cases r1)
    case (Some x)
    with l show ?thesis by (intro config [of x s1]) (simp_all add: run_steps_def)
  next
    case None
    obtain r2 s2 w2 where s: "setup_browser e s1 idle_world = (r2, s2, w2)" by (metis prod_cases3)
    show ?thesis
    proof (cases r2)
      case (Some x)
      with l None s show ?thesis by (intro session [of s1 x s2 w2]) (simp_all add: run_steps_def)
    next
      case n2: None
      obtain s3 w3 where n: "navigate_and_capture_errors e s2 w2 = (s3, w3)" by (metis prod.exhaust)
      with l None s n2 show ?thesis
        by (intro navigated [of s1 s2 w2 s3 w3]) (simp_all add: run_steps_def)
    qed
  qed
qed




lemma file_writes_append: "file_writes (xs @ ys) = file_writes xs @ file_writes ys"
  by (simp add: file_writes_def)

lemma file_writes_page_actions: "list_all page_action xs \<Longrightarrow> file_writes xs = []"
  by (induction xs) (auto simp: file_writes_def page_action_def split: action.splits)

lemma file_writes_setup_actions: "list_all setup_action xs \<Longrightarrow> file_writes xs = []"
  by (induction xs) (auto simp: file_writes_def setup_action_def split: action.splits)

lemma file_writes_closes: "file_writes (closes s) = []"
  by (simp add: file_writes_def closes_def)





lemma navigated_start:
  assumes "load_env_file (env_file e) init = (None, s1)"
    and "setup_browser e s1 idle_world = (None, s2, w2)"
  shows "page s2 \<and> console_errors s2 = [] \<and> \<not> gdpr_present s2 \<and> (\<exists>u. site_url s2 = Some u) \<and>
    file_writes (trace w2) = []"
proof -
  note k = load_env_file_keeps [OF assms(1)]
  have np: "\<not> playwright s1" using k by (simp add: init_def)
  note o = setup_browser_ok [OF np assms(2)]
  have "page s2" using o by simp
  moreover have "console_errors s2 = []" using o k by (simp add: init_def)
  moreover have "\<not> gdpr_present s2" using o k by (simp add: init_def)
  moreover have "\<exists>u. site_url s2 = Some u" using o load_env_file_url [OF assms(1)] by auto
  moreover have "file_writes (trace w2) = []" using o by (simp add: file_writes_def idle_world_def)
  ultimately show ?thesis by simp
qed

lemma run_writes:
  assumes "run e = (r, s, w)"
  shows "(console_errors s = [] \<longrightarrow> file_writes (trace w) = []) \<and>
    (console_errors s \<noteq> [] \<longrightarrow>
      (\<exists>u. site_url s = Some u \<and> r = None \<and>
         file_writes (trace w) =
           [(json_filepath (derive_domain e u),
             \<lparr>out_site_url = u, domain = derive_domain e u, scraped_at = scraped_at_now e,
              GDPR_PRESENT = (if gdpr_present s then ''TRUE'' else ''FALSE''),
              total_errors = length (console_errors s), errors = console_errors s\<rparr>)]))"
proof -
  obtain w0 where b: "run_steps e init idle_world = (r, s, w0)" and w: "w = cleanup s w0"
    using assms by (auto simp: run_def split: prod.splits)
  have fw: "file_writes (trace w) = file_writes (trace w0)"
    unfolding w by (simp add: cleanup_trace file_writes_append file_writes_closes)
  show ?thesis
  proof (cases e rule: run_steps_cases)
    case (config x s1)
    with b have "s = s1" "w0 = idle_world" by simp_all
    with load_env_file_keeps [OF config(1)] fw show ?thesis
      by (simp add: init_def idle_world_def file_writes_def)
  next
    case (session s1 x s2 w2)
    with b have eq: "s = s2" "w0 = w2" by simp_all
    obtain added where "trace w2 = trace idle_world @ added" "list_all setup_action added"
      using setup_browser_keeps [OF session(2)] by blast
    then have "file_writes (trace w2) = []"
      by (simp add: idle_world_def file_writes_setup_actions)
    moreover have "console_errors s2 = []"
      using setup_browser_keeps [OF session(2)] load_env_file_keeps [OF session(1)]
      by (simp add: init_def)
    ultimately show ?thesis using eq fw by simp
  next
    case (navigated s1 s2 w2 s3 w3)
    note st = navigated_start [OF navigated(1,2)]
    note x = extends_navigate [OF navigated(3)]
    obtain a3 where "trace w3 = trace w2 @ a3" "list_all page_action a3"
      using x unfolding extends_def by blast
    then have f3: "file_writes (trace w3) = []"
      using st by (simp add: file_writes_append file_writes_page_actions)
    obtain u where u: "site_url s3 = Some u" using st x unfolding extends_def by auto
    from b navigated(4) have sv: "save_errors_to_json e s3 w3 = (r, s, w0)" by simp
    have eq: "s = s3" using save_errors_to_json_keeps [OF sv] by simp
    show ?thesis
    proof (cases "console_errors s3 = []")
      case True
      with sv have "w0 = w3" by (simp add: save_errors_to_json_empty)
      with True eq f3 fw show ?thesis by simp
    next
      case False
      from sv have "r = None" and "trace w0 = trace w3 @
        [Mkdir ''console_error/site_url'',
         WriteFile (json_filepath (derive_domain e u))
           \<lparr>out_site_url = u, domain = derive_domain e u, scraped_at = scraped_at_now e,
            GDPR_PRESENT = (if gdpr_present s3 then ''TRUE'' else ''FALSE''),
            total_errors = length (console_errors s3), errors = console_errors s3\<rparr>]"
        unfolding save_errors_to_json_writes [OF False u] by auto
      with False eq u f3 fw show ?thesis
        by (simp add: file_writes_append) (simp add: file_writes_def)
    qed
  qed
qed

lemma run_kinds:
  assumes "run e = (r, s, w)"
  shows "\<forall>ev\<in>set (console_errors s). ev_type ev \<in> insert ''navigation_error'' seen"
proof -
  obtain w0 where b: "run_steps e init idle_world = (r, s, w0)"
    using assms by (auto simp: run_def split: prod.splits)
  show ?thesis
  proof (cases e rule: run_steps_cases)
    case (config x s1)
    with b have "s = s1" by simp
    with load_env_file_keeps [OF config(1)] show ?thesis by (simp add: init_def)
  next
    case (session s1 x s2 w2)
    with b have "s = s2" by simp
    with setup_browser_keeps [OF session(2)] load_env_file_keeps [OF session(1)]
    show ?thesis by (simp add: init_def)
  next
    case (navigated s1 s2 w2 s3 w3)
    note st = navigated_start [OF navigated(1,2)]
    from b navigated(4) have "save_errors_to_json e s3 w3 = (r, s, w0)" by simp
    then have "s = s3" using save_errors_to_json_keeps by blast
    moreover obtain ys where "console_errors s3 = console_errors s2 @ ys"
      "\<forall>ev\<in>set ys. ev_type ev \<in> insert ''navigation_error'' seen"
      using extends_navigate [OF navigated(3)] unfolding extends_def by blast
    ultimately show ?thesis using st by simp
  qed
qed

lemma navigate_steps_gdpr:
  assumes "page s" and "navigate_steps e s w = (x, s', w')"
  shows "gdpr_present s' =
    (gdpr_present s \<or>
     (fst (goto_result e) = None \<and> (\<exists>i<length accept_selectors. fst (probe e i) = Activated)))"
proof (cases "fst (goto_result e)")
  case (Some d)
  with assms show ?thesis
    by (auto simp: navigate_steps_def page_call_def dispatch_all_fields)
next
  case None
  let ?s1 = "dispatch_all (snd (goto_result e)) s"
  let ?w1 = "log (Sleep 3) (log (Goto (site_url s)) w)"
  obtain f s2 w2 where c: "find_and_click_accept_button e ?s1 ?w1 = (f, s2, w2)"
    by (metis prod_cases3)
  have p: "page ?s1" using assms(1) by (simp add: dispatch_all_fields)
  from c have t: "try_selectors e 0 accept_selectors ?s1 ?w1 = (f, s2, w2)"
    by (simp add: find_and_click_accept_button_def)
  have f: "f = (\<exists>i<length accept_selectors. fst (probe e i) = Activated)"
    using try_selectors_returns [OF p, of e 0 accept_selectors ?w1] t by simp
  have g2: "gdpr_present s2 = (gdpr_present s \<or> f)"
    using try_selectors_flag [OF p t] by (simp add: dispatch_all_fields)
  have "gdpr_present s' = gdpr_present s2"
    using assms None c
    by (auto simp: navigate_steps_def page_call_def dispatch_all_fields split: option.splits)
  with g2 f None show ?thesis by simp
qed

lemma navigate_gdpr:
  assumes "page s" and "navigate_and_capture_errors e s w = (s', w')"
  shows "gdpr_present s' =
    (gdpr_present s \<or>
     (fst (goto_result e) = None \<and> (\<exists>i<length accept_selectors. fst (probe e i) = Activated)))"
proof -
  obtain x s1 w1 where st: "navigate_steps e s w = (x, s1, w1)" by (metis prod_cases3)
  from assms(2) st have "gdpr_present s' = gdpr_present s1"
    by (cases x) (auto simp: navigate_and_capture_errors_def)
  with navigate_steps_gdpr [OF assms(1) st] show ?thesis by simp
qed

lemma run_gdpr:
  assumes "run e = (r, s, w)" and "console_errors s \<noteq> []"
  shows "gdpr_present s =
    (fst (goto_result e) = None \<and> (\<exists>i<length accept_selectors. fst (probe e i) = Activated))"
proof -
  obtain w0 where b: "run_steps e init idle_world = (r, s, w0)"
    using assms by (auto simp: run_def split: prod.splits)
  show ?thesis
  proof (cases e rule: run_steps_cases)
    case (config x s1)
    with b have "s = s1" by simp
    with load_env_file_keeps [OF config(1)] assms(2) show ?thesis by (simp add: init_def)
  next
    case (session s1 x s2 w2)
    with b have "s = s2" by simp
    with setup_browser_keeps [OF session(2)] load_env_file_keeps [OF session(1)] assms(2)
    show ?thesis by (simp add: init_def)
  next
    case (navigated s1 s2 w2 s3 w3)
    note st = navigated_start [OF navigated(1,2)]
    from b navigated(4) have "save_errors_to_json e s3 w3 = (r, s, w0)" by simp
    then have "s = s3" using save_errors_to_json_keeps by blast
    with navigate_gdpr [OF _ navigated(3)] st show ?thesis by simp
  qed
qed

section \<open>Navigation failures\<close>



section \<open>Events\<close>

lemma handle_console_message_other:
  "msg_type m \<noteq> ''error'' \<Longrightarrow> msg_type m \<noteq> ''warning'' \<Longrightarrow> handle_console_message t u m s = s"
  by (simp add: handle_console_message_def)

lemma run_errors:
  assumes "run e = (r, s, w)" and "(p, doc) \<in> set (file_writes (trace w))"
  shows "errors doc = console_errors s"
proof -
  note rw = run_writes [OF assms(1)]
  have "console_errors s \<noteq> []" using rw assms(2) by auto
  with rw assms(2) show ?thesis by auto
qed

section \<open>The domain identifier\<close>

lemma replace_ne_set: "set (replace_ne old new s) \<subseteq> set s \<union> set new"
proof (induction old new s rule: replace_ne.induct)
  case (1 old new)
  show ?case by simp
next
  case (2 old new c cs)
  show ?case
  proof (cases "old \<noteq> [] \<and> take (length old) (c # cs) = old")
    case True
    have "set (drop (length old) (c # cs)) \<subseteq> set (c # cs)" by (rule set_drop_subset)
    with True 2(1) show ?thesis by (simp del: drop.simps) blast
  next
    case False
    with 2(2) show ?thesis by auto
  qed
qed

lemma replace_ne_removes: "c \<notin> set new \<Longrightarrow> c \<notin> set (replace_ne [c] new s)"
proof (induction "[c]" new s rule: replace_ne.induct)
  case (1 new)
  show ?case by simp
next
  case (2 new x xs)
  then show ?case by (cases "x = c") auto
qed

lemma netloc_of_no_slash: "CHR ''/'' \<notin> set (netloc_of u)"
  by (auto simp: netloc_of_def Let_def dest: set_takeWhileD)

lemma fallback_domain_safe:
  "CHR '':'' \<notin> set (fallback_domain u) \<and> CHR ''/'' \<notin> set (fallback_domain u)"
proof -
  let ?x = "replace ''www.'' '''' (replace ''http://'' '''' (replace ''https://'' '''' u))"
  have a: "CHR ''/'' \<notin> set (replace_ne ''/'' ''_'' ?x)"
    by (rule replace_ne_removes) simp
  have "set (replace_ne '':'' ''_'' (replace_ne ''/'' ''_'' ?x))
      \<subseteq> set (replace_ne ''/'' ''_'' ?x) \<union> set ''_''"
    by (rule replace_ne_set)
  with a have "CHR ''/'' \<notin> set (replace_ne '':'' ''_'' (replace_ne ''/'' ''_'' ?x))" by auto
  moreover have "CHR '':'' \<notin> set (replace_ne '':'' ''_'' (replace_ne ''/'' ''_'' ?x))"
    by (rule replace_ne_removes) simp
  ultimately show ?thesis by (simp add: fallback_domain_def replace_def)
qed

lemma netloc_domain_safe:
  "CHR '':'' \<notin> set (replace '':'' ''_'' (replace ''www.'' '''' (netloc_of u))) \<and>
   CHR ''/'' \<notin> set (replace '':'' ''_'' (replace ''www.'' '''' (netloc_of u)))"
proof -
  let ?n = "netloc_of u"
  have "set (replace_ne ''www.'' '''' ?n) \<subseteq> set ?n \<union> set ''''" by (rule replace_ne_set)
  then have a: "CHR ''/'' \<notin> set (replace_ne ''www.'' '''' ?n)"
    using netloc_of_no_slash [of u] by auto
  have "set (replace_ne '':'' ''_'' (replace_ne ''www.'' '''' ?n))
      \<subseteq> set (replace_ne ''www.'' '''' ?n) \<union> set ''_''"
    by (rule replace_ne_set)
  with a have "CHR ''/'' \<notin> set (replace_ne '':'' ''_'' (replace_ne ''www.'' '''' ?n))" by auto
  moreover have "CHR '':'' \<notin> set (replace_ne '':'' ''_'' (replace_ne ''www.'' '''' ?n))"
    by (rule replace_ne_removes) simp
  ultimately show ?thesis by (simp add: replace_def)
qed

lemma derive_domain_safe:
  "CHR '':'' \<notin> set (derive_domain e u) \<and> CHR ''/'' \<notin> set (derive_domain e u)"
proof (cases "urlparse_netloc e u")
  case None
  then show ?thesis using fallback_domain_safe [of u] by (simp add: derive_domain_def)
next
  case (Some n)
  then have n: "n = netloc_of u"
    by (auto simp: urlparse_netloc_def Let_def split: if_splits)
  show ?thesis
    using Some n fallback_domain_safe [of u] netloc_domain_safe [of u]
    by (simp add: derive_domain_def Let_def)
qed

lemma replace_www_prefix:
  "startswith ''www.'' n \<Longrightarrow> replace ''www.'' '''' n = replace ''www.'' '''' (drop 4 n)"
  by (cases n) (auto simp: startswith_def replace_def numeral_3_eq_3)

lemmas domain_unfold = derive_domain_def urlparse_netloc_def netloc_of_def cut_scheme_def
  c0_control_or_space_def ascii_alpha_def scheme_char_def replace_def fallback_domain_def
  claimed_domain_def www_prefix_stripped_def startswith_def

lemma example_domain:
  "derive_domain example_env ''https://www.Example.com:8080/path'' = ''Example.com_8080''"
  by (simp add: domain_unfold example_env_def)

section \<open>The example runs, evaluated\<close>

lemmas run_unfold = run_def run_steps_def load_env_file_def setup_browser_def
  navigate_and_capture_errors_def navigate_steps_def page_call_def
  find_and_click_accept_button_def save_errors_to_json_def cleanup_def
  dispatch_all_def dispatch_def handle_console_message_def handle_page_error_def
  log_def init_def idle_world_def accept_selectors_def locator_def
  strip_def is_space_def startswith_def split_once_def add_protocol_def Let_def

lemma example_events:
  "length (console_errors (fst (snd (run example_env)))) = 1"
  by (simp add: run_unfold example_env_def example_message_def)


section \<open>Claims about the configuration loader\<close>

text \<open>
  Claim C7. When the configured URL (the non-empty value that the loop found) does not
  begin with \<open>http://\<close> or \<open>https://\<close>, \<open>load_env_file\<close> stores it with \<open>https://\<close> put in
  front once: what follows the prefix is the configured URL, which does not begin with
  \<open>https://\<close> itself. A URL that begins with \<open>http://\<close> or \<open>https://\<close> is stored as it is.
  In both cases the stored URL is one that the loader would leave unchanged.
\<close>

theorem load_env_file_prepends_https_once:
  assumes "scan_lines lines (site_url s) = Some u" and "u \<noteq> []"
  shows "\<exists>u'. load_env_file (Some lines) s = (None, s\<lparr>site_url := Some u'\<rparr>) \<and>
           (if startswith ''http://'' u \<or> startswith ''https://'' u then u' = u
            else u' = ''https://'' @ u \<and> \<not> startswith ''https://'' (drop 8 u')) \<and>
           add_protocol u' = u'"
proof -
  have l: "load_env_file (Some lines) s = (None, s\<lparr>site_url := Some (add_protocol u)\<rparr>)"
    using assms by (rule load_ok)
  show ?thesis
  proof (cases "startswith ''http://'' u \<or> startswith ''https://'' u")
    case True
    then have "add_protocol u = u" by (auto simp: add_protocol_def)
    with l True show ?thesis by auto
  next
    case False
    then have a: "add_protocol u = ''https://'' @ u" by (simp add: add_protocol_def)
    have b: "add_protocol (''https://'' @ u) = ''https://'' @ u"
      by (simp add: add_protocol_def startswith_def)
    have c: "drop 8 (''https://'' @ u) = u" by simp
    from l False a b c show ?thesis by auto
  qed
qed

theorem load_env_file_prepends_https_once_witness:
  "load_env_file (Some [''SITE_URL=example.com'']) init = (None, init\<lparr>site_url := Some ''https://example.com''\<rparr>)
   \<and> load_env_file (Some [''SITE_URL=http://example.com'']) init = (None, init\<lparr>site_url := Some ''http://example.com''\<rparr>)"
proof -
  have a: "scan_lines [''SITE_URL=example.com''] (site_url init) = Some ''example.com''"
    by (simp add: strip_def is_space_def startswith_def split_once_def)
  have b: "scan_lines [''SITE_URL=http://example.com''] (site_url init) = Some ''http://example.com''"
    by (simp add: strip_def is_space_def startswith_def split_once_def)
  show ?thesis
    using load_env_file_prepends_https_once [OF a] load_env_file_prepends_https_once [OF b]
    by (auto simp: startswith_def)
qed

text \<open>
  Claim C10. The loader takes the value of the first line whose key, the part before
  its first \<open>=\<close>, strips to \<open>SITE_URL\<close>, whatever lines follow it; when that value is empty
  after stripping, \<open>load_env_file\<close> raises the \<open>ValueError\<close> of the missing key, also when a
  later line names a URL. A blank line, a line starting with \<open>#\<close> and a line without \<open>=\<close>
  can be taken out of the file without changing what the loop finds.
\<close>

theorem scan_lines_first_site_url:
  "(names_site_url raw \<and> (\<forall>l\<in>set pre. \<not> names_site_url l) \<longrightarrow>
      scan_lines (pre @ raw # post) su = Some (site_value raw) \<and>
      (site_value raw = [] \<longrightarrow>
         load_env_file (Some (pre @ raw # post)) s = (Some ValueError, s\<lparr>site_url := Some []\<rparr>))) \<and>
   (skipped raw \<longrightarrow> scan_lines (pre @ raw # post) su = scan_lines (pre @ post) su)"
proof (intro conjI impI)
  assume a: "names_site_url raw \<and> (\<forall>l\<in>set pre. \<not> names_site_url l)"
  then have f: "find names_site_url (pre @ raw # post) = Some raw"
    by (simp add: find_first)
  then show "scan_lines (pre @ raw # post) su = Some (site_value raw)"
    by (simp add: scan_lines_find)
  assume "site_value raw = []"
  with f have "scan_lines (pre @ raw # post) (site_url s) = Some []"
    by (simp add: scan_lines_find)
  then show "load_env_file (Some (pre @ raw # post)) s = (Some ValueError, s\<lparr>site_url := Some []\<rparr>)"
    by (rule load_empty_value)
next
  assume "skipped raw"
  then show "scan_lines (pre @ raw # post) su = scan_lines (pre @ post) su"
    by (rule scan_lines_skip)
qed

theorem scan_lines_first_site_url_witness:
  "scan_lines [''# SITE_URL=a.com'', ''OTHER=1'', '' SITE_URL =  '', ''SITE_URL=b.com''] None = Some [] \<and>
   load_env_file (Some [''# SITE_URL=a.com'', ''OTHER=1'', '' SITE_URL =  '', ''SITE_URL=b.com'']) init
     = (Some ValueError, init\<lparr>site_url := Some []\<rparr>) \<and>
   scan_lines [''OTHER=1'', ''# SITE_URL=a.com'', ''SITE_URL=b.com''] None
     = scan_lines [''OTHER=1'', ''SITE_URL=b.com''] None"
proof -
  have n: "names_site_url '' SITE_URL =  '' \<and>
      (\<forall>l\<in>set [''# SITE_URL=a.com'', ''OTHER=1'']. \<not> names_site_url l)"
    by (simp add: names_site_url_def split_once_def strip_def is_space_def)
  have v: "site_value '' SITE_URL =  '' = []"
    by (simp add: site_value_def split_once_def strip_def is_space_def)
  have k: "skipped ''# SITE_URL=a.com''"
    by (simp add: skipped_def startswith_def)
  show ?thesis
    using scan_lines_first_site_url [of "'' SITE_URL =  ''" "[''# SITE_URL=a.com'', ''OTHER=1'']"
        "[''SITE_URL=b.com'']" None init]
      scan_lines_first_site_url [of "''# SITE_URL=a.com''" "[''OTHER=1'']" "[''SITE_URL=b.com'']" None init]
      n v k
    by simp
qed

text \<open>
  Claim C6. When the configuration file is absent, or no line of it has the key
  \<open>SITE_URL\<close>, or the first such line has an empty value, the run ends with the
  configuration error (\<open>FileNotFoundError\<close> for the absent file, \<open>ValueError\<close> otherwise); the
  only thing the run does is the closing line of \<open>cleanup\<close>: no call on the automation
  engine is made, no resource is acquired and no file is written.
\<close>

theorem run_aborts_on_configuration_error:
  assumes "env_file e = None \<or>
     (\<exists>lines. env_file e = Some lines \<and>
        (case find names_site_url lines of None \<Rightarrow> True | Some raw \<Rightarrow> site_value raw = []))"
  shows "\<exists>x s w. run e = (Some x, s, w) \<and>
     x = (if env_file e = None then FileNotFoundError else ValueError) \<and>
     trace w = [CleanupComplete] \<and> acquisitions (trace w) = [] \<and> file_writes (trace w) = [] \<and>
     \<not> engine_running w \<and> \<not> browser_running w \<and> \<not> context_open w \<and> \<not> page_open w"
proof -
  have "\<exists>x s. load_env_file (env_file e) init = (Some x, s) \<and>
      x = (if env_file e = None then FileNotFoundError else ValueError) \<and>
      \<not> page s \<and> \<not> browser s \<and> \<not> playwright s"
  proof (cases "env_file e")
    case None
    then show ?thesis by (simp add: load_env_file_def init_def)
  next
    case (Some lines)
    with assms have "scan_lines lines (site_url init) = None \<or> scan_lines lines (site_url init) = Some []"
      by (auto simp: scan_lines_find init_def split: option.splits)
    then show ?thesis using Some load_missing [of lines init] load_empty_value [of lines init]
      by (auto simp: init_def)
  qed
  then obtain x s where l: "load_env_file (env_file e) init = (Some x, s)"
    and x: "x = (if env_file e = None then FileNotFoundError else ValueError)"
    and h: "\<not> page s" "\<not> browser s" "\<not> playwright s" by blast
  have "run e = (Some x, s, log CleanupComplete idle_world)"
    using l h by (simp add: run_def run_steps_def cleanup_init)
  with x show ?thesis
    by (simp add: log_def idle_world_def acquisitions_def file_writes_def)
qed

theorem run_aborts_on_configuration_error_witness:
  "fst (run (example_env\<lparr>env_file := None\<rparr>)) = Some FileNotFoundError \<and>
   trace (snd (snd (run (example_env\<lparr>env_file := None\<rparr>)))) = [CleanupComplete] \<and>
   fst (run (example_env\<lparr>env_file := Some [''# nothing here'', ''SITE_URL='']\<rparr>)) = Some ValueError \<and>
   trace (snd (snd (run (example_env\<lparr>env_file := Some [''# nothing here'', ''SITE_URL='']\<rparr>)))) = [CleanupComplete]"
proof -
  have a: "env_file (example_env\<lparr>env_file := None\<rparr>) = None \<or>
     (\<exists>lines. env_file (example_env\<lparr>env_file := None\<rparr>) = Some lines \<and>
        (case find names_site_url lines of None \<Rightarrow> True | Some raw \<Rightarrow> site_value raw = []))"
    by simp
  have "(case find names_site_url [''# nothing here'', ''SITE_URL=''] of None \<Rightarrow> True | Some raw \<Rightarrow> site_value raw = [])"
    by (simp add: names_site_url_def site_value_def split_once_def strip_def is_space_def)
  then have b: "env_file (example_env\<lparr>env_file := Some [''# nothing here'', ''SITE_URL='']\<rparr>) = None \<or>
     (\<exists>lines. env_file (example_env\<lparr>env_file := Some [''# nothing here'', ''SITE_URL='']\<rparr>) = Some lines \<and>
        (case find names_site_url lines of None \<Rightarrow> True | Some raw \<Rightarrow> site_value raw = []))"
    by simp
  show ?thesis
    using run_aborts_on_configuration_error [OF a] run_aborts_on_configuration_error [OF b]
    by auto
qed

section \<open>Claims about the consent-control resolver\<close>

text \<open>
  Claim C4. \<open>find_and_click_accept_button\<close> checks its candidates in the order of the
  selector list. A candidate whose check raises or answers that nothing is visible, or
  whose click raises, does not end the search: when no candidate is activated every
  candidate of the list has been checked, in order, and the result is \<open>False\<close>. At the
  first candidate that is visible and takes the click the search ends: the candidates
  checked are those up to this one, the last calls are its check, its click and the
  pause of two seconds, the flag is set, and the result is \<open>True\<close>. The result says
  whether a candidate was activated. The function has no exceptional result.
\<close>

theorem resolver_stops_at_first_activated:
  assumes "page s" and "find_and_click_accept_button e s w = (b, s', w')"
  shows "b = (\<exists>i<length accept_selectors. fst (probe e i) = Activated) \<and>
    gdpr_present s' = (gdpr_present s \<or> b) \<and>
    ((\<forall>i<length accept_selectors. fst (probe e i) \<noteq> Activated) \<longrightarrow>
       probed (trace w') = probed (trace w) @ map locator accept_selectors) \<and>
    (\<forall>k<length accept_selectors.
       fst (probe e k) = Activated \<and> (\<forall>j<k. fst (probe e j) \<noteq> Activated) \<longrightarrow>
       probed (trace w') = probed (trace w) @ map locator (take (Suc k) accept_selectors) \<and>
       (\<exists>tr. trace w' = tr @ [IsVisible (locator (accept_selectors ! k)),
                              Click (locator (accept_selectors ! k)), Sleep 2]))"
proof -
  from assms(2) have t: "try_selectors e 0 accept_selectors s w = (b, s', w')"
    by (simp add: find_and_click_accept_button_def)
  have "b = (\<exists>i<length accept_selectors. fst (probe e i) = Activated)"
    using try_selectors_returns [OF assms(1), of e 0 accept_selectors w] t by simp
  moreover have "gdpr_present s' = (gdpr_present s \<or> b)"
    using try_selectors_flag [OF assms(1) t] .
  moreover have "(\<forall>i<length accept_selectors. fst (probe e i) \<noteq> Activated) \<longrightarrow>
       probed (trace w') = probed (trace w) @ map locator accept_selectors"
    using try_selectors_none [OF assms(1) _ t] by simp
  moreover have "\<forall>k<length accept_selectors.
       fst (probe e k) = Activated \<and> (\<forall>j<k. fst (probe e j) \<noteq> Activated) \<longrightarrow>
       probed (trace w') = probed (trace w) @ map locator (take (Suc k) accept_selectors) \<and>
       (\<exists>tr. trace w' = tr @ [IsVisible (locator (accept_selectors ! k)),
                              Click (locator (accept_selectors ! k)), Sleep 2])"
    using try_selectors_first [OF assms(1) _ _ _ t] by simp
  ultimately show ?thesis by blast
qed

theorem resolver_stops_at_first_activated_witness:
  "fst (find_and_click_accept_button example_env (init\<lparr>page := True\<rparr>) idle_world) \<and>
   gdpr_present (fst (snd (find_and_click_accept_button example_env (init\<lparr>page := True\<rparr>) idle_world))) \<and>
   probed (trace (snd (snd (find_and_click_accept_button example_env (init\<lparr>page := True\<rparr>) idle_world))))
     = map locator (take 3 accept_selectors)"
proof -
  define r where "r = find_and_click_accept_button example_env (init\<lparr>page := True\<rparr>) idle_world"
  have p: "page (init\<lparr>page := True\<rparr>)" by simp
  have r: "find_and_click_accept_button example_env (init\<lparr>page := True\<rparr>) idle_world
      = (fst r, fst (snd r), snd (snd r))" by (simp add: r_def)
  have a: "fst (probe example_env 2) = Activated" by (simp add: example_env_def)
  have n: "\<forall>j<2. fst (probe example_env j) \<noteq> Activated" by (simp add: example_env_def)
  have l: "(2::nat) < length accept_selectors" by (simp add: accept_selectors_def)
  have i: "probed (trace idle_world) = []" by (simp add: probed_def idle_world_def)
  note t = resolver_stops_at_first_activated [OF p r]
  from t have t1: "fst r = (\<exists>i<length accept_selectors. fst (probe example_env i) = Activated)"
    by (rule conjunct1)
  from t have t2: "gdpr_present (fst (snd r)) = (gdpr_present (init\<lparr>page := True\<rparr>) \<or> fst r)"
    by (rule conjunct2 [THEN conjunct1])
  from t have t4: "\<forall>k<length accept_selectors.
       fst (probe example_env k) = Activated \<and> (\<forall>j<k. fst (probe example_env j) \<noteq> Activated) \<longrightarrow>
       probed (trace (snd (snd r))) = probed (trace idle_world) @ map locator (take (Suc k) accept_selectors) \<and>
       (\<exists>tr. trace (snd (snd r)) = tr @ [IsVisible (locator (accept_selectors ! k)),
                              Click (locator (accept_selectors ! k)), Sleep 2])"
    by (rule conjunct2 [THEN conjunct2, THEN conjunct2])
  have b: "fst r" using t1 a l by blast
  have g: "gdpr_present (fst (snd r))" using t2 b by simp
  have "probed (trace (snd (snd r))) = probed (trace idle_world) @ map locator (take (Suc 2) accept_selectors)"
    using t4 [rule_format, OF l] a n by blast
  then have c: "probed (trace (snd (snd r))) = map locator (take 3 accept_selectors)"
    using i by (simp add: numeral_3_eq_3)
  from b g c show ?thesis unfolding r_def by blast
qed

section \<open>Claims about a run\<close>





text \<open>
  Claim C3. In the document of a run that wrote its output file, \<open>GDPR_PRESENT\<close> is
  \<open>TRUE\<close> when the resolver ran and one of its candidates was visible and took the
  click, and \<open>FALSE\<close> otherwise (no candidate was activated, or the navigation failed
  before the resolver ran); it is the value of the flag \<open>gdpr_present\<close> of the object.
  The resolver only ever sets the flag: after it, the flag holds when it held before or
  the resolver returned \<open>True\<close>.
\<close>

theorem gdpr_present_reports_activation:
  assumes "run e = (r, s, w)" and "(p, doc) \<in> set (file_writes (trace w))"
  shows "GDPR_PRESENT doc =
      (if fst (goto_result e) = None \<and>
          (\<exists>i<length accept_selectors. fst (probe e i) = Activated)
       then ''TRUE'' else ''FALSE'') \<and>
    GDPR_PRESENT doc = (if gdpr_present s then ''TRUE'' else ''FALSE'') \<and>
    (\<forall>t v b t' v'. page t \<and> find_and_click_accept_button e t v = (b, t', v') \<longrightarrow>
       gdpr_present t' = (gdpr_present t \<or> b))"
proof -
  note rw = run_writes [OF assms(1)]
  have ne: "console_errors s \<noteq> []" using rw assms(2) by auto
  with rw have g: "GDPR_PRESENT doc = (if gdpr_present s then ''TRUE'' else ''FALSE'')"
    using assms(2) by auto
  have "\<forall>t v b t' v'. page t \<and> find_and_click_accept_button e t v = (b, t', v') \<longrightarrow>
       gdpr_present t' = (gdpr_present t \<or> b)"
    using try_selectors_flag by (simp add: find_and_click_accept_button_def) blast
  with g run_gdpr [OF assms(1) ne] show ?thesis by simp
qed

theorem gdpr_present_reports_activation_witness:
  "\<exists>p doc. file_writes (trace (snd (snd (run example_env)))) = [(p, doc)] \<and>
     GDPR_PRESENT doc = ''TRUE''"
proof -
  have ne: "console_errors (fst (snd (run example_env))) \<noteq> []"
    using example_events by auto
  have r: "run example_env = (fst (run example_env), fst (snd (run example_env)), snd (snd (run example_env)))"
    by simp
  from run_writes [OF r] ne obtain p doc where
    f: "file_writes (trace (snd (snd (run example_env)))) = [(p, doc)]" by blast
  then have m: "(p, doc) \<in> set (file_writes (trace (snd (snd (run example_env)))))" by simp
  have a: "fst (goto_result example_env) = None \<and>
      (\<exists>i<length accept_selectors. fst (probe example_env i) = Activated)"
    by (auto simp: example_env_def accept_selectors_def intro!: exI [of _ 2])
  from gdpr_present_reports_activation [OF r m] a have "GDPR_PRESENT doc = ''TRUE''"
    by simp
  with f show ?thesis by blast
qed



text \<open>
  Claim C9. The observers append to \<open>console_errors\<close> what they observe, in the order of
  arrival: one event for a console message of severity \<open>error\<close> or \<open>warning\<close>, with that
  severity as its kind, one event of kind \<open>page_error\<close> for a page error, and nothing for
  a console message of another severity. Every step of a run leaves the events already
  in the list as they are and in place: the loader, the set-up and the persister do not
  touch the list, the resolver and the driver extend it at its end, the driver with
  events of the kinds \<open>error\<close>, \<open>warning\<close>, \<open>page_error\<close> and \<open>navigation_error\<close> only. After
  a run every event has one of these four kinds, and the \<open>errors\<close> array of a written
  document is the list.
\<close>

theorem console_errors_append_only:
  "console_errors (dispatch_all ds s) = console_errors s @ concat (map (observed (page s)) ds) \<and>
   (msg_type m \<noteq> ''error'' \<and> msg_type m \<noteq> ''warning'' \<longrightarrow>
      handle_console_message t u m s = s) \<and>
   (load_env_file f s = (r0, s0) \<longrightarrow> console_errors s0 = console_errors s) \<and>
   (setup_browser e s w = (r1, s1, w1) \<longrightarrow> console_errors s1 = console_errors s) \<and>
   (find_and_click_accept_button e s w = (b, s2, w2) \<longrightarrow>
      (\<exists>ys. console_errors s2 = console_errors s @ ys \<and> (\<forall>ev\<in>set ys. ev_type ev \<in> seen))) \<and>
   (navigate_and_capture_errors e s w = (s3, w3) \<longrightarrow>
      (\<exists>ys. console_errors s3 = console_errors s @ ys \<and>
         (\<forall>ev\<in>set ys. ev_type ev \<in> {''error'', ''warning'', ''page_error'', ''navigation_error''}))) \<and>
   (save_errors_to_json e s w = (r4, s4, w4) \<longrightarrow> s4 = s) \<and>
   (run e = (r, a, v) \<longrightarrow>
      (\<forall>ev\<in>set (console_errors a).
         ev_type ev \<in> {''error'', ''warning'', ''page_error'', ''navigation_error''}) \<and>
      (\<forall>(p, doc)\<in>set (file_writes (trace v)). errors doc = console_errors a))"
proof (intro conjI impI)
  show "console_errors (dispatch_all ds s) = console_errors s @ concat (map (observed (page s)) ds)"
    by (rule dispatch_all_events)
next
  assume "msg_type m \<noteq> ''error'' \<and> msg_type m \<noteq> ''warning''"
  then show "handle_console_message t u m s = s" by (simp add: handle_console_message_other)
next
  assume "load_env_file f s = (r0, s0)"
  from load_env_file_keeps [OF this] show "console_errors s0 = console_errors s" by simp
next
  assume "setup_browser e s w = (r1, s1, w1)"
  from setup_browser_keeps [OF this] show "console_errors s1 = console_errors s" by simp
next
  assume "find_and_click_accept_button e s w = (b, s2, w2)"
  then have "extends seen s w s2 w2"
    unfolding find_and_click_accept_button_def by (rule extends_try_selectors)
  then show "\<exists>ys. console_errors s2 = console_errors s @ ys \<and> (\<forall>ev\<in>set ys. ev_type ev \<in> seen)"
    unfolding extends_def by blast
next
  assume "navigate_and_capture_errors e s w = (s3, w3)"
  from extends_navigate [OF this]
  have "\<exists>ys. console_errors s3 = console_errors s @ ys \<and>
         (\<forall>ev\<in>set ys. ev_type ev \<in> insert ''navigation_error'' seen)"
    unfolding extends_def by blast
  moreover have "insert ''navigation_error'' seen =
      {''error'', ''warning'', ''page_error'', ''navigation_error''}" by blast
  ultimately show "\<exists>ys. console_errors s3 = console_errors s @ ys \<and>
         (\<forall>ev\<in>set ys. ev_type ev \<in> {''error'', ''warning'', ''page_error'', ''navigation_error''})"
    by simp
next
  assume "save_errors_to_json e s w = (r4, s4, w4)"
  from save_errors_to_json_keeps [OF this] show "s4 = s" by simp
next
  assume r: "run e = (r, a, v)"
  have "insert ''navigation_error'' seen =
      {''error'', ''warning'', ''page_error'', ''navigation_error''}" by blast
  with run_kinds [OF r]
  show "\<forall>ev\<in>set (console_errors a).
         ev_type ev \<in> {''error'', ''warning'', ''page_error'', ''navigation_error''}" by simp
  show "\<forall>(p, doc)\<in>set (file_writes (trace v)). errors doc = console_errors a"
    using run_errors [OF r] by blast
qed

theorem console_errors_append_only_witness:
  "console_errors (dispatch_all [example_info, example_message, example_info] (init\<lparr>page := True\<rparr>)) =
     [\<lparr>ev_timestamp = ''2024-01-01T00:00:01'', ev_type = ''error'',
       ev_text = ''Uncaught TypeError'',
       ev_location = Some \<lparr>loc_url = ''https://www.Example.com:8080/app.js'',
          line_number = 10, column_number = 4\<rparr>,
       ev_url = Some ''https://www.Example.com:8080/path''\<rparr>] \<and>
   handle_console_message ''2024-01-01T00:00:02'' ''https://www.Example.com:8080/path''
     \<lparr>msg_type = ''info'', msg_text = ''ready'',
      msg_location = \<lparr>loc_url = ''https://www.Example.com:8080/app.js'',
        line_number = 1, column_number = 1\<rparr>\<rparr> init = init"
  using console_errors_append_only
    [of "[example_info, example_message, example_info]" "init\<lparr>page := True\<rparr>"
      "\<lparr>msg_type = ''info'', msg_text = ''ready'',
        msg_location = \<lparr>loc_url = ''https://www.Example.com:8080/app.js'',
          line_number = 1, column_number = 1\<rparr>\<rparr>"
      "''2024-01-01T00:00:02''" "''https://www.Example.com:8080/path''"]
    console_errors_append_only
    [of "[]" init
      "\<lparr>msg_type = ''info'', msg_text = ''ready'',
        msg_location = \<lparr>loc_url = ''https://www.Example.com:8080/app.js'',
          line_number = 1, column_number = 1\<rparr>\<rparr>"
      "''2024-01-01T00:00:02''" "''https://www.Example.com:8080/path''"]
  by (simp add: observed_def example_info_def example_message_def init_def)

section \<open>Claims about the domain identifier\<close>

text \<open>
  Claim C2, as stated, fails: for the target URL \<open>https://beta.www.example.com/\<close> the
  network location \<open>beta.www.example.com\<close> has no \<open>www.\<close> prefix, so stripping the prefix
  leaves it as it is, while the persister derives \<open>beta.example.com\<close>: \<open>replace\<close> removes
  \<open>www.\<close> wherever it occurs.
\<close>

theorem domain_is_not_prefix_stripped_counterexample:
  "derive_domain example_env ''https://beta.www.example.com/'' = ''beta.example.com'' \<and>
   claimed_domain ''https://beta.www.example.com/'' = ''beta.www.example.com'' \<and>
   derive_domain example_env ''https://beta.www.example.com/'' \<noteq>
     claimed_domain ''https://beta.www.example.com/''"
  by (simp add: domain_unfold example_env_def)

text \<open>
  Claim C2, amended. The domain identifier is a function of the target URL (and of which
  network locations \<open>urlparse\<close> rejects). When \<open>urlparse\<close> accepts the URL, the identifier is
  the network location with every occurrence of \<open>www.\<close> removed, a leading one among
  them, and every \<open>:\<close> replaced by \<open>_\<close>, so that \<open>https://www.Example.com:8080/path\<close> yields
  \<open>Example.com_8080\<close>; when that string is empty or \<open>urlparse\<close> raises, it is the URL with
  \<open>https://\<close>, \<open>http://\<close> and \<open>www.\<close> removed and \<open>/\<close> and \<open>:\<close> replaced by \<open>_\<close>. It contains
  neither \<open>:\<close> nor \<open>/\<close>. The persister leaves the object as it is, so deriving again
  gives the same string, and the string is the base name of the file it writes and the
  \<open>domain\<close> field of the document.
\<close>

theorem domain_derivation:
  "(urlparse_netloc e u = Some n \<and> replace '':'' ''_'' (replace ''www.'' '''' n) \<noteq> [] \<longrightarrow>
      n = netloc_of u \<and> derive_domain e u = replace '':'' ''_'' (replace ''www.'' '''' n)) \<and>
   (urlparse_netloc e u = None \<or> replace '':'' ''_'' (replace ''www.'' '''' (netloc_of u)) = [] \<longrightarrow>
      derive_domain e u = fallback_domain u) \<and>
   (startswith ''www.'' n \<longrightarrow> replace ''www.'' '''' n = replace ''www.'' '''' (drop 4 n)) \<and>
   CHR '':'' \<notin> set (derive_domain e u) \<and> CHR ''/'' \<notin> set (derive_domain e u) \<and>
   (console_errors s \<noteq> [] \<and> site_url s = Some u \<longrightarrow>
      (\<exists>w' doc. save_errors_to_json e s w = (None, s, w') \<and> domain doc = derive_domain e u \<and>
         file_writes (trace w') = file_writes (trace w) @
           [(''console_error/site_url/'' @ derive_domain e u @ ''.json'', doc)]))"
proof (intro conjI impI)
  assume a: "urlparse_netloc e u = Some n \<and> replace '':'' ''_'' (replace ''www.'' '''' n) \<noteq> []"
  then show "n = netloc_of u"
    by (auto simp: urlparse_netloc_def Let_def split: if_splits)
  from a show "derive_domain e u = replace '':'' ''_'' (replace ''www.'' '''' n)"
    by (simp add: derive_domain_def Let_def)
next
  assume "urlparse_netloc e u = None \<or> replace '':'' ''_'' (replace ''www.'' '''' (netloc_of u)) = []"
  then show "derive_domain e u = fallback_domain u"
    by (auto simp: derive_domain_def urlparse_netloc_def Let_def split: option.splits if_splits)
next
  assume "startswith ''www.'' n"
  then show "replace ''www.'' '''' n = replace ''www.'' '''' (drop 4 n)"
    by (rule replace_www_prefix)
next
  show "CHR '':'' \<notin> set (derive_domain e u)" using derive_domain_safe [of e u] by simp
  show "CHR ''/'' \<notin> set (derive_domain e u)" using derive_domain_safe [of e u] by simp
next
  assume "console_errors s \<noteq> [] \<and> site_url s = Some u"
  then have ne: "console_errors s \<noteq> []" and su: "site_url s = Some u" by simp_all
  let ?doc = "\<lparr>out_site_url = u, domain = derive_domain e u, scraped_at = scraped_at_now e,
            GDPR_PRESENT = (if gdpr_present s then ''TRUE'' else ''FALSE''),
            total_errors = length (console_errors s), errors = console_errors s\<rparr>"
  let ?w = "w\<lparr>trace := trace w @
        [Mkdir ''console_error/site_url'', WriteFile (json_filepath (derive_domain e u)) ?doc]\<rparr>"
  have "save_errors_to_json e s w = (None, s, ?w) \<and> domain ?doc = derive_domain e u \<and>
         file_writes (trace ?w) = file_writes (trace w) @
           [(''console_error/site_url/'' @ derive_domain e u @ ''.json'', ?doc)]"
    using save_errors_to_json_writes [OF ne su, of e w]
    by (simp add: file_writes_def json_filepath_def)
  then show "\<exists>w' doc. save_errors_to_json e s w = (None, s, w') \<and> domain doc = derive_domain e u \<and>
         file_writes (trace w') = file_writes (trace w) @
           [(''console_error/site_url/'' @ derive_domain e u @ ''.json'', doc)]"
    by blast
qed

theorem domain_derivation_witness:
  "derive_domain example_env ''https://www.Example.com:8080/path'' = ''Example.com_8080'' \<and>
   replace ''www.'' '''' ''www.Example.com:8080'' = replace ''www.'' '''' ''Example.com:8080'' \<and>
   derive_domain example_env ''https:///a:b'' = ''_a_b''"
proof -
  have a: "urlparse_netloc example_env ''https://www.Example.com:8080/path'' = Some ''www.Example.com:8080'' \<and>
      replace '':'' ''_'' (replace ''www.'' '''' ''www.Example.com:8080'') \<noteq> []"
    by (simp add: domain_unfold example_env_def)
  have b: "startswith ''www.'' ''www.Example.com:8080''" by (simp add: startswith_def)
  have c: "urlparse_netloc example_env ''https:///a:b'' = None \<or>
      replace '':'' ''_'' (replace ''www.'' '''' (netloc_of ''https:///a:b'')) = []"
    by (simp add: domain_unfold example_env_def)
  have r: "replace '':'' ''_'' (replace ''www.'' '''' ''www.Example.com:8080'') = ''Example.com_8080''"
    by (simp add: replace_def)
  have f: "fallback_domain ''https:///a:b'' = ''_a_b''"
    by (simp add: fallback_domain_def replace_def)
  show ?thesis
    using domain_derivation [of example_env "''https://www.Example.com:8080/path''"
        "''www.Example.com:8080''" init idle_world]
      domain_derivation [of example_env "''https:///a:b''" "''www.Example.com:8080''" init idle_world]
      a b c r f
    by simp
qed

end
